theory Spec2Isabelle
  imports Main
begin

section \<open>Data model\<close>

text \<open>
  Python strings are modelled as byte strings in UTF-8 (\<open>string\<close>); Python integers are
  \<open>int\<close>. A column that may hold \<open>NULL\<close> is an \<open>option\<close>.
\<close>

text \<open>A row of the table \<open>upload_queue\<close> (class \<open>UploadQueue\<close>).\<close>

record task =
  task_id :: int
  file_path :: string
  file_name :: string
  file_size :: int
  file_mtime :: int
  monitor_path :: string
  dest_remote :: "string option"
  dest_local :: "string option"
  operation_type :: string
  delete_source :: bool
  status :: string
  retry_count :: int
  error_message :: "string option"
  created_at :: int
  updated_at :: int

text \<open>A row of the table \<open>upload_history\<close> (class \<open>UploadHistory\<close>).\<close>

record hist =
  hist_id :: int
  file_fingerprint :: string
  h_file_size :: int
  h_file_path :: string
  h_file_name :: string
  h_dest_remote :: "string option"
  h_dest_local :: "string option"
  h_operation_type :: string
  completed_at :: int

section \<open>The task store (upload\_queue.py)\<close>

text \<open>
  A table is the list of its rows in insertion order. An \<open>UPDATE ... WHERE\<close> rewrites
  the matching rows in place; a \<open>SELECT ... ORDER BY created_at ASC LIMIT 1\<close> sorts the
  matching rows by the key (rows with equal keys keep their table order) and keeps the first.
  Every operation that writes reads the clock itself; the value read is the argument
  \<open>timestamp\<close>. The decorators \<open>db_query\<close> and \<open>db_update\<close> hand the session to
  the operation; an operation takes effect as a whole or raises, and whether it raises is
  for the caller's environment to say.
\<close>

definition get_next_pending_task :: "task list \<Rightarrow> task option" where
  "get_next_pending_task db =
     (case take 1 (sort_key created_at (filter (\<lambda>r. status r = ''pending'') db)) of
        [] \<Rightarrow> None
      | t # _ \<Rightarrow> Some t)"

definition mark_as_processing :: "task list \<Rightarrow> int \<Rightarrow> int \<Rightarrow> task list" where
  "mark_as_processing db tid timestamp =
     map (\<lambda>r. if task_id r = tid
               then r\<lparr>status := ''processing'', updated_at := timestamp\<rparr> else r) db"

definition mark_as_completed :: "task list \<Rightarrow> int \<Rightarrow> int \<Rightarrow> task list" where
  "mark_as_completed db tid timestamp =
     map (\<lambda>r. if task_id r = tid
               then r\<lparr>status := ''completed'', updated_at := timestamp\<rparr> else r) db"

definition mark_as_failed :: "task list \<Rightarrow> int \<Rightarrow> string \<Rightarrow> int \<Rightarrow> int \<Rightarrow> task list" where
  "mark_as_failed db tid error_msg rc timestamp =
     map (\<lambda>r. if task_id r = tid
               then r\<lparr>status := ''failed'', error_message := Some error_msg,
                      retry_count := rc, updated_at := timestamp\<rparr> else r) db"

definition mark_as_pending_retry :: "task list \<Rightarrow> int \<Rightarrow> int \<Rightarrow> int \<Rightarrow> task list" where
  "mark_as_pending_retry db tid rc timestamp =
     map (\<lambda>r. if task_id r = tid
               then r\<lparr>status := ''pending'', retry_count := rc, updated_at := timestamp\<rparr>
               else r) db"

definition exists_in_queue :: "task list \<Rightarrow> string \<Rightarrow> bool" where
  "exists_in_queue db p =
     (0 < length (filter (\<lambda>r. file_path r = p \<and>
                               (status r = ''pending'' \<or> status r = ''processing'')) db))"

text \<open>
  \<open>create_task\<close> inserts a pending row with a fresh id. The column \<open>file_path\<close> is
  unique: inserting a path the table already holds raises (the result \<open>None\<close>).
\<close>

definition next_task_id :: "task list \<Rightarrow> int" where
  "next_task_id db = fold max (map task_id db) 0 + 1"

definition create_task ::
  "task list \<Rightarrow> string \<Rightarrow> string \<Rightarrow> int \<Rightarrow> int \<Rightarrow> string \<Rightarrow> string \<Rightarrow>
   string option \<Rightarrow> string option \<Rightarrow> bool \<Rightarrow> int \<Rightarrow> task list option" where
  "create_task db fpath fname fsize fmtime mon op dremote dlocal del timestamp =
     (if fpath \<in> set (map file_path db) then None
      else Some (db @
        [\<lparr>task_id = next_task_id db, file_path = fpath, file_name = fname,
          file_size = fsize, file_mtime = fmtime, monitor_path = mon,
          dest_remote = dremote, dest_local = dlocal, operation_type = op,
          delete_source = del, status = ''pending'', retry_count = 0,
          error_message = None, created_at = timestamp, updated_at = timestamp\<rparr>]))"

text \<open>
  \<open>reset_processing_tasks\<close> returns the new table and \<open>result.rowcount\<close>, the number
  of rows the \<open>WHERE\<close> clause matched.
\<close>

definition reset_processing_tasks :: "task list \<Rightarrow> int \<Rightarrow> task list \<times> nat" where
  "reset_processing_tasks db timestamp =
     (map (\<lambda>r. if status r = ''processing''
                then r\<lparr>status := ''pending'', updated_at := timestamp\<rparr> else r) db,
      length (filter (\<lambda>r. status r = ''processing'') db))"

section \<open>The history store (upload\_history.py)\<close>

text \<open>
  \<open>is_uploaded\<close> selects the rows with the given fingerprint and size; \<open>scalar()\<close> is the
  first of them or \<open>None\<close>, and the result says whether it is not \<open>None\<close>.
\<close>

definition is_uploaded :: "hist list \<Rightarrow> string \<Rightarrow> int \<Rightarrow> bool" where
  "is_uploaded hs fingerprint fsize =
     (case filter (\<lambda>h. file_fingerprint h = fingerprint \<and> h_file_size h = fsize) hs of
        [] \<Rightarrow> False
      | _ # _ \<Rightarrow> True)"

definition next_hist_id :: "hist list \<Rightarrow> int" where
  "next_hist_id hs = fold max (map hist_id hs) 0 + 1"

definition record_upload ::
  "hist list \<Rightarrow> string \<Rightarrow> int \<Rightarrow> string \<Rightarrow> string \<Rightarrow> string \<Rightarrow>
   string option \<Rightarrow> string option \<Rightarrow> int \<Rightarrow> hist list" where
  "record_upload hs fingerprint fsize fpath fname op dremote dlocal timestamp =
     hs @ [\<lparr>hist_id = next_hist_id hs, file_fingerprint = fingerprint, h_file_size = fsize,
            h_file_path = fpath, h_file_name = fname, h_dest_remote = dremote,
            h_dest_local = dlocal, h_operation_type = op, completed_at = timestamp\<rparr>]"

section \<open>Fingerprints\<close>

text \<open>
  The f-string \<open>f"{file_size}_{file_mtime}"\<close> writes both integers in decimal.
\<close>

definition digit_char :: "nat \<Rightarrow> char" where
  "digit_char d = ''0123456789'' ! d"

function dec_nat :: "nat \<Rightarrow> string" where
  "dec_nat n = (if n < 10 then [digit_char n]
                else dec_nat (n div 10) @ [digit_char (n mod 10)])"
  by pat_completeness auto
termination
  by (relation "measure id") auto

definition str_int :: "int \<Rightarrow> string" where
  "str_int i = (if i < 0 then CHR ''-'' # dec_nat (nat (- i)) else dec_nat (nat i))"

definition fingerprint_of :: "int \<Rightarrow> int \<Rightarrow> string" where
  "fingerprint_of fsize fmtime = str_int fsize @ ''_'' @ str_int fmtime"

section \<open>The queue processor (upload\_queue\_processor.py)\<close>

text \<open>
  The points of one pass of \<open>process_one_task\<close> at which a call into the stores or the
  file system can raise, and the points of \<open>enqueue_file\<close>.
\<close>

datatype proc_step =
    GetNext | MarkProcessing | PathExists | IsUploaded | MarkMissing | MarkDuplicate
  | MarkCompleted | RecordUpload | MarkRetry | MarkFailed

datatype enq_step =
    EntryExists | AcquireLock | Stat | HistoryLookup | QueueLookup | CreateTask

datatype exn =
    ProcFault proc_step | EnqFault enq_step | TypeError | AttributeError | IntegrityError

text \<open>
  The state: the processor's flag \<open>is_processing\<close>, the two tables, the regular files that
  exist, the tasks handed to the upload routine or to the copy collaborator so far, and the
  exceptions the handlers have logged.
\<close>

record world =
  is_processing :: bool
  queue :: "task list"
  history :: "hist list"
  files :: "string set"
  transfers :: "task list"
  error_log :: "exn list"

text \<open>
  What one pass meets outside the program: whether the call at a point raises, the clock
  read at a point, the outcome \<open>(success, error_msg)\<close> of \<open>_do_upload\<close> and of the copy
  in \<open>_do_copy\<close> (both catch every exception and return a pair), and whether removing the
  source file fails (\<open>_delete_source_file\<close> catches that itself).
\<close>

record proc_env =
  raises :: "proc_step \<Rightarrow> bool"
  now :: "proc_step \<Rightarrow> int"
  upload_file :: "task \<Rightarrow> bool \<times> string"
  copy_file :: "task \<Rightarrow> bool \<times> string"
  unlink_fails :: bool

text \<open>
  The messages of the source, as UTF-8 bytes: the message of step 3 for a file that does
  not exist, the prefix of the message for an unknown operation type, and the message of
  \<open>_do_copy\<close> for a task with no local destination. The texts are Chinese.
\<close>

definition msg_file_missing :: string where
  "msg_file_missing =
     [CHR 0xE6, CHR 0x96, CHR 0x87, CHR 0xE4, CHR 0xBB, CHR 0xB6, CHR 0xE4, CHR 0xB8,
      CHR 0x8D, CHR 0xE5, CHR 0xAD, CHR 0x98, CHR 0xE5, CHR 0x9C, CHR 0xA8]"

definition msg_unknown_operation :: string where
  "msg_unknown_operation =
     [CHR 0xE6, CHR 0x9C, CHR 0xAA, CHR 0xE7, CHR 0x9F, CHR 0xA5, CHR 0xE7, CHR 0x9A,
      CHR 0x84, CHR 0xE6, CHR 0x93, CHR 0x8D, CHR 0xE4, CHR 0xBD, CHR 0x9C, CHR 0xE7,
      CHR 0xB1, CHR 0xBB, CHR 0xE5, CHR 0x9E, CHR 0x8B, CHR 0x3A, CHR 0x20]"

definition msg_no_local_dest :: string where
  "msg_no_local_dest =
     [CHR 0xE6, CHR 0x9C, CHR 0xAA, CHR 0xE9, CHR 0x85, CHR 0x8D, CHR 0xE7, CHR 0xBD,
      CHR 0xAE, CHR 0xE6, CHR 0x9C, CHR 0xAC, CHR 0xE5, CHR 0x9C, CHR 0xB0, CHR 0xE7,
      CHR 0x9B, CHR 0xAE, CHR 0xE6, CHR 0xA0, CHR 0x87, CHR 0xE8, CHR 0xB7, CHR 0xAF,
      CHR 0xE5, CHR 0xBE, CHR 0x84]"

text \<open>
  \<open>_execute_task\<close> dispatches on the operation type. \<open>_do_copy\<close> refuses a task with no
  local destination before it calls anything.
\<close>

definition execute_task :: "proc_env \<Rightarrow> task \<Rightarrow> world \<Rightarrow> (bool \<times> string) \<times> world" where
  "execute_task e t s =
     (if operation_type t = ''upload''
      then (upload_file e t, s\<lparr>transfers := transfers s @ [t]\<rparr>)
      else if operation_type t = ''copy''
      then (if dest_local t = None \<or> dest_local t = Some []
            then ((False, msg_no_local_dest), s)
            else (copy_file e t, s\<lparr>transfers := transfers s @ [t]\<rparr>))
      else ((False, msg_unknown_operation @ operation_type t), s))"

text \<open>
  \<open>_delete_source_file\<close> unlinks the file and then removes parent directories that hold
  no file, below the monitored root. The state lists regular files only, so removing empty
  directories leaves it as it is.
\<close>

definition delete_source_file :: "proc_env \<Rightarrow> string \<Rightarrow> world \<Rightarrow> world" where
  "delete_source_file e p s = (if unlink_fails e then s else s\<lparr>files := files s - {p}\<rparr>)"

text \<open>
  Steps 5 and 6 of \<open>process_one_task\<close>: run the transfer and update the task. The result
  is \<open>Inr b\<close> for \<open>return b\<close> and \<open>Inl p\<close> for an exception raised at the point \<open>p\<close>.
  A call that raises leaves the tables as they were.
\<close>

definition run_transfer :: "proc_env \<Rightarrow> task \<Rightarrow> world \<Rightarrow> (proc_step + bool) \<times> world" where
  "run_transfer e t s =
     (let fingerprint = fingerprint_of (file_size t) (file_mtime t);
          (res, s2) = execute_task e t s
      in if fst res then
           (if raises e MarkCompleted then (Inl MarkCompleted, s2)
            else let s3 = s2\<lparr>queue := mark_as_completed (queue s2) (task_id t)
                                          (now e MarkCompleted)\<rparr>
              in if raises e RecordUpload then (Inl RecordUpload, s3)
                 else let s4 = s3\<lparr>history := record_upload (history s3) fingerprint
                                     (file_size t) (file_path t) (file_name t)
                                     (operation_type t) (dest_remote t) (dest_local t)
                                     (now e RecordUpload)\<rparr>
                   in (Inr True,
                       if delete_source t then delete_source_file e (file_path t) s4 else s4))
         else
           (let rc = retry_count t + 1
            in if rc < 3 then
                 (if raises e MarkRetry then (Inl MarkRetry, s2)
                  else (Inr True, s2\<lparr>queue := mark_as_pending_retry (queue s2) (task_id t) rc
                                                 (now e MarkRetry)\<rparr>))
               else
                 (if raises e MarkFailed then (Inl MarkFailed, s2)
                  else (Inr True, s2\<lparr>queue := mark_as_failed (queue s2) (task_id t) (snd res)
                                                 rc (now e MarkFailed)\<rparr>))))"

text \<open>The body of the \<open>try\<close> block of \<open>process_one_task\<close>, steps 1 to 4 and on.\<close>

definition process_body :: "proc_env \<Rightarrow> world \<Rightarrow> (proc_step + bool) \<times> world" where
  "process_body e s =
     (if raises e GetNext then (Inl GetNext, s)
      else case get_next_pending_task (queue s) of
        None \<Rightarrow> (Inr False, s)
      | Some t \<Rightarrow>
          if raises e MarkProcessing then (Inl MarkProcessing, s)
          else let s1 = s\<lparr>queue := mark_as_processing (queue s) (task_id t)
                                      (now e MarkProcessing)\<rparr>
            in if raises e PathExists then (Inl PathExists, s1)
               else if file_path t \<notin> files s1 then
                 (if raises e MarkMissing then (Inl MarkMissing, s1)
                  else (Inr True, s1\<lparr>queue := mark_as_failed (queue s1) (task_id t)
                                          msg_file_missing (retry_count t)
                                          (now e MarkMissing)\<rparr>))
               else if raises e IsUploaded then (Inl IsUploaded, s1)
               else if is_uploaded (history s1)
                         (fingerprint_of (file_size t) (file_mtime t)) (file_size t) then
                 (if raises e MarkDuplicate then (Inl MarkDuplicate, s1)
                  else (Inr True, s1\<lparr>queue := mark_as_completed (queue s1) (task_id t)
                                          (now e MarkDuplicate)\<rparr>))
               else run_transfer e t s1)"

text \<open>
  \<open>process_one_task\<close>: the early return when busy, the claim of the flag, the \<open>try\<close>
  block, the handler (log, \<open>return False\<close>) and the \<open>finally\<close> clause.
\<close>

definition process_one_task :: "proc_env \<Rightarrow> world \<Rightarrow> bool \<times> world" where
  "process_one_task e s =
     (if is_processing s then (False, s)
      else let (r, s') = process_body e (s\<lparr>is_processing := True\<rparr>)
        in case r of
             Inr b \<Rightarrow> (b, s'\<lparr>is_processing := False\<rparr>)
           | Inl p \<Rightarrow> (False, s'\<lparr>error_log := error_log s' @ [ProcFault p],
                                   is_processing := False\<rparr>))"

text \<open>Consecutive passes, each in its own environment; the results of the passes.\<close>

fun run_passes :: "proc_env list \<Rightarrow> world \<Rightarrow> world" where
  "run_passes [] s = s"
| "run_passes (e # es) s = run_passes es (snd (process_one_task e s))"

text \<open>The rows of a table with a given id.\<close>

definition rows_of :: "int \<Rightarrow> task list \<Rightarrow> task list" where
  "rows_of tid db = filter (\<lambda>r. task_id r = tid) db"

subsection \<open>Calls that overlap\<close>

text \<open>
  The processor is one object and \<open>is_processing\<close> one attribute of it; calls of
  \<open>process_one_task\<close> made while another call is at work run on the same state. A call
  is followed through the points at which another call can take a turn: before the test
  of the flag (line 57), before the assignment to it (line 61), at the start of the
  \<open>try\<close> block, before and after the transfer, and before the \<open>finally\<close> clause.
\<close>

datatype pc =
    AtCheck | AtClaim | InTry | AtTransfer task | AtSettle task "bool \<times> string"
  | AtFinally "proc_step + bool" | Returned bool

text \<open>
  Steps 1 to 4 of the \<open>try\<close> block: they end the block (\<open>Inl\<close>, with the result and the
  state) or leave a task to transfer (\<open>Inr\<close>).
\<close>

definition prepare ::
  "proc_env \<Rightarrow> world \<Rightarrow> ((proc_step + bool) \<times> world) + (task \<times> world)" where
  "prepare e s =
     (if raises e GetNext then Inl (Inl GetNext, s)
      else case get_next_pending_task (queue s) of
        None \<Rightarrow> Inl (Inr False, s)
      | Some t \<Rightarrow>
          if raises e MarkProcessing then Inl (Inl MarkProcessing, s)
          else let s1 = s\<lparr>queue := mark_as_processing (queue s) (task_id t)
                                      (now e MarkProcessing)\<rparr>
            in if raises e PathExists then Inl (Inl PathExists, s1)
               else if file_path t \<notin> files s1 then
                 (if raises e MarkMissing then Inl (Inl MarkMissing, s1)
                  else Inl (Inr True, s1\<lparr>queue := mark_as_failed (queue s1) (task_id t)
                                          msg_file_missing (retry_count t)
                                          (now e MarkMissing)\<rparr>))
               else if raises e IsUploaded then Inl (Inl IsUploaded, s1)
               else if is_uploaded (history s1)
                         (fingerprint_of (file_size t) (file_mtime t)) (file_size t) then
                 (if raises e MarkDuplicate then Inl (Inl MarkDuplicate, s1)
                  else Inl (Inr True, s1\<lparr>queue := mark_as_completed (queue s1) (task_id t)
                                          (now e MarkDuplicate)\<rparr>))
               else Inr (t, s1))"

text \<open>Step 6 of the \<open>try\<close> block, after the transfer has given \<open>res\<close>.\<close>

definition settle ::
  "proc_env \<Rightarrow> task \<Rightarrow> bool \<times> string \<Rightarrow> world \<Rightarrow> (proc_step + bool) \<times> world" where
  "settle e t res s2 =
     (let fingerprint = fingerprint_of (file_size t) (file_mtime t)
      in if fst res then
           (if raises e MarkCompleted then (Inl MarkCompleted, s2)
            else let s3 = s2\<lparr>queue := mark_as_completed (queue s2) (task_id t)
                                          (now e MarkCompleted)\<rparr>
              in if raises e RecordUpload then (Inl RecordUpload, s3)
                 else let s4 = s3\<lparr>history := record_upload (history s3) fingerprint
                                     (file_size t) (file_path t) (file_name t)
                                     (operation_type t) (dest_remote t) (dest_local t)
                                     (now e RecordUpload)\<rparr>
                   in (Inr True,
                       if delete_source t then delete_source_file e (file_path t) s4 else s4))
         else
           (let rc = retry_count t + 1
            in if rc < 3 then
                 (if raises e MarkRetry then (Inl MarkRetry, s2)
                  else (Inr True, s2\<lparr>queue := mark_as_pending_retry (queue s2) (task_id t) rc
                                                 (now e MarkRetry)\<rparr>))
               else
                 (if raises e MarkFailed then (Inl MarkFailed, s2)
                  else (Inr True, s2\<lparr>queue := mark_as_failed (queue s2) (task_id t) (snd res)
                                                 rc (now e MarkFailed)\<rparr>))))"

text \<open>One turn of a call that stands at the point \<open>p\<close>, on the shared state.\<close>

fun advance :: "proc_env \<Rightarrow> pc \<Rightarrow> world \<Rightarrow> pc \<times> world" where
  "advance e AtCheck s = (if is_processing s then (Returned False, s) else (AtClaim, s))"
| "advance e AtClaim s = (InTry, s\<lparr>is_processing := True\<rparr>)"
| "advance e InTry s =
     (case prepare e s of
        Inl (r, s') \<Rightarrow> (AtFinally r, s')
      | Inr (t, s') \<Rightarrow> (AtTransfer t, s'))"
| "advance e (AtTransfer t) s =
     (case execute_task e t s of (res, s') \<Rightarrow> (AtSettle t res, s'))"
| "advance e (AtSettle t res) s =
     (case settle e t res s of (r, s') \<Rightarrow> (AtFinally r, s'))"
| "advance e (AtFinally (Inr b)) s = (Returned b, s\<lparr>is_processing := False\<rparr>)"
| "advance e (AtFinally (Inl p)) s =
     (Returned False, s\<lparr>error_log := error_log s @ [ProcFault p], is_processing := False\<rparr>)"
| "advance e (Returned b) s = (Returned b, s)"

text \<open>
  The calls under way, each with its environment and its point, and the shared state. A
  schedule names the call that takes each turn.
\<close>

definition turn :: "nat \<Rightarrow> world \<times> (proc_env \<times> pc) list \<Rightarrow> world \<times> (proc_env \<times> pc) list" where
  "turn i c =
     (case c of (s, calls) \<Rightarrow>
        if i < length calls
        then (case calls ! i of (e, p) \<Rightarrow>
                (case advance e p s of (p', s') \<Rightarrow> (s', calls[i := (e, p')])))
        else (s, calls))"

fun run_schedule ::
  "nat list \<Rightarrow> world \<times> (proc_env \<times> pc) list \<Rightarrow> world \<times> (proc_env \<times> pc) list" where
  "run_schedule [] c = c"
| "run_schedule (i # sched) c = run_schedule sched (turn i c)"

text \<open>
  A schedule without the overlap at the entry: a call that tests the flag sets it, if it
  found it clear, before any other call takes a turn.
\<close>

definition entry_turn ::
  "nat \<Rightarrow> world \<times> (proc_env \<times> pc) list \<Rightarrow> world \<times> (proc_env \<times> pc) list" where
  "entry_turn i c =
     (if i < length (snd c) \<and> snd (snd c ! i) = AtCheck then turn i (turn i c)
      else turn i c)"

fun run_entry_schedule ::
  "nat list \<Rightarrow> world \<times> (proc_env \<times> pc) list \<Rightarrow> world \<times> (proc_env \<times> pc) list" where
  "run_entry_schedule [] c = c"
| "run_entry_schedule (i # sched) c = run_entry_schedule sched (entry_turn i c)"

text \<open>
  A call is inside from the start of the \<open>try\<close> block to the end of the \<open>finally\<close>
  clause. A call holds a task in flight from the moment it has marked the task as
  processing until it has settled it.
\<close>

fun inside :: "pc \<Rightarrow> bool" where
  "inside InTry = True"
| "inside (AtTransfer t) = True"
| "inside (AtSettle t res) = True"
| "inside (AtFinally r) = True"
| "inside p = False"

fun holds_task :: "pc \<Rightarrow> bool" where
  "holds_task (AtTransfer t) = True"
| "holds_task (AtSettle t res) = True"
| "holds_task p = False"

text \<open>
  The flag tells whether a call is inside: no call stands between its test and its
  assignment, and the calls inside are one when the flag is set and none when it is clear.
\<close>

definition flag_inv :: "world \<times> (proc_env \<times> pc) list \<Rightarrow> bool" where
  "flag_inv c =
     (list_all (\<lambda>x. snd x \<noteq> AtClaim) (snd c) \<and>
      length (filter (\<lambda>x. inside (snd x)) (snd c)) = (if is_processing (fst c) then 1 else 0))"

definition in_flight :: "(proc_env \<times> pc) list \<Rightarrow> nat" where
  "in_flight calls = length (filter (\<lambda>c. holds_task (snd c)) calls)"

section \<open>The enqueuer (monitor.py)\<close>

subsection \<open>Strings and paths\<close>

text \<open>
  \<open>str.lower()\<close> and \<open>str.strip()\<close> consult the Unicode tables of the interpreter, which
  are no part of these sources: in the functions below they are the parameters
  \<open>str_lower\<close> and \<open>str_strip\<close>, fields of the environment of \<open>enqueue_file\<close>. What
  the two methods do to a string of ASCII characters is fixed, and written out here:
  \<open>ascii_lower\<close> maps the letters A to Z to a to z, and \<open>ascii_strip\<close> removes the
  leading and trailing characters that \<open>str.isspace\<close> accepts below 128. A string is
  \<open>is_ascii\<close> when each of its bytes is below 128.
\<close>

definition is_ascii :: "string \<Rightarrow> bool" where
  "is_ascii s = list_all (\<lambda>c. \<not> digit7 c) s"

definition ascii_lower_char :: "char \<Rightarrow> char" where
  "ascii_lower_char c =
     (case map_of (zip ''ABCDEFGHIJKLMNOPQRSTUVWXYZ'' ''abcdefghijklmnopqrstuvwxyz'') c of
        None \<Rightarrow> c
      | Some d \<Rightarrow> d)"

definition ascii_lower :: "string \<Rightarrow> string" where
  "ascii_lower s = map ascii_lower_char s"

definition ascii_space :: "char \<Rightarrow> bool" where
  "ascii_space c = (c \<in> set [CHR 0x20, CHR 0x09, CHR 0x0A, CHR 0x0B, CHR 0x0C, CHR 0x0D,
                               CHR 0x1C, CHR 0x1D, CHR 0x1E, CHR 0x1F])"

definition ascii_strip :: "string \<Rightarrow> string" where
  "ascii_strip s = rev (dropWhile ascii_space (rev (dropWhile ascii_space s)))"

fun split_on :: "char \<Rightarrow> string \<Rightarrow> string list" where
  "split_on d [] = [[]]"
| "split_on d (c # cs) =
     (if c = d then [] # split_on d cs
      else case split_on d cs of
             w # ws \<Rightarrow> (c # w) # ws
           | [] \<Rightarrow> [[c]])"

text \<open>The full-width comma U+FF0C in UTF-8, and \<open>.replace\<close> of it by the ASCII comma.\<close>

definition fullwidth_comma :: string where
  "fullwidth_comma = [CHR 0xEF, CHR 0xBC, CHR 0x8C]"

fun replace_fullwidth_comma :: "string \<Rightarrow> string" where
  "replace_fullwidth_comma (a # b # c # cs) =
     (if [a, b, c] = fullwidth_comma then CHR '','' # replace_fullwidth_comma cs
      else a # replace_fullwidth_comma (b # c # cs))"
| "replace_fullwidth_comma cs = cs"

fun starts_with :: "string \<Rightarrow> string \<Rightarrow> bool" where
  "starts_with [] s = True"
| "starts_with (a # as) [] = False"
| "starts_with (a # as) (c # cs) = (a = c \<and> starts_with as cs)"

fun contains :: "string \<Rightarrow> string \<Rightarrow> bool" where
  "contains sub [] = (sub = [])"
| "contains sub (c # cs) = (starts_with sub (c # cs) \<or> contains sub cs)"

text \<open>
  \<open>Path(p).name\<close> is the last component of the path and \<open>Path(p).suffix\<close> the part of
  the name from its last dot on, when that dot is neither the first nor the last character
  of the name. The paths are the absolute, normalised paths the watcher reports, for which
  \<open>str(Path(p))\<close> is \<open>p\<close>.
\<close>

definition path_name :: "string \<Rightarrow> string" where
  "path_name p = rev (takeWhile (\<lambda>c. c \<noteq> CHR ''/'') (rev p))"

definition path_suffix :: "string \<Rightarrow> string" where
  "path_suffix p =
     (let name = path_name p;
          ext = rev (takeWhile (\<lambda>c. c \<noteq> CHR ''.'') (rev name))
      in if CHR ''.'' \<in> set name \<and> ext \<noteq> [] \<and> length ext + 1 < length name
         then CHR ''.'' # ext else [])"

subsection \<open>The checks of \<open>enqueue_file\<close>\<close>

definition is_excluded :: "string \<Rightarrow> bool" where
  "is_excluded p =
     (contains ''/@Recycle/'' p \<or> contains ''/#recycle/'' p \<or> contains ''/.'' p \<or>
      contains ''/@eaDir'' p)"

text \<open>
  The search for the pattern BDMV, a slash or a backslash, STREAM with the flag
  \<open>re.IGNORECASE\<close>. On a \<open>str\<close> the flag
  lets a letter of the pattern match its upper-case and its lower-case form, and lets S
  match the long s (U+017F, the bytes C5 BF) as well; no other character matches a letter
  of this pattern. A pattern is the list of its positions, each the list of the encoded
  characters it accepts.
\<close>

fun match_here :: "string list list \<Rightarrow> string \<Rightarrow> bool" where
  "match_here [] s = True"
| "match_here (alts # rest) s =
     list_ex (\<lambda>a. if starts_with a s then match_here rest (drop (length a) s) else False)
       alts"

fun search :: "string list list \<Rightarrow> string \<Rightarrow> bool" where
  "search pat [] = match_here pat []"
| "search pat (c # cs) = (match_here pat (c # cs) \<or> search pat cs)"

definition bdmv_stream :: "string list list" where
  "bdmv_stream =
     [[''B'', ''b''], [''D'', ''d''], [''M'', ''m''], [''V'', ''v''], [''/'', [CHR 0x5C]],
      [''S'', ''s'', [CHR 0xC5, CHR 0xBF]], [''T'', ''t''], [''R'', ''r''], [''E'', ''e''],
      [''A'', ''a''], [''M'', ''m'']]"

definition is_bluray :: "string \<Rightarrow> bool" where
  "is_bluray p = search bdmv_stream p"

text \<open>An entry of the setting \<open>directory_upload_path\<close>: a dictionary, a key may be absent.\<close>

record cfg_item =
  src :: "string option"
  cfg_dest_remote :: "string option"
  cfg_dest_local :: "string option"
  cfg_delete :: "bool option"

text \<open>
  What one call of \<open>enqueue_file\<close> meets outside the program: whether a call raises, the
  answers of the file system (at entry, at the two samples of \<open>is_file_stable\<close>, at the
  final \<open>stat\<close>; \<open>st_mtime\<close> is the modification time already truncated by \<open>int\<close>,
  its only use), the three settings (\<open>None\<close> when \<open>get_config\<close> returns \<open>None\<close>; a falsy
  entry of the list is \<open>None\<close>), the clock, and the interpreter's \<open>str.lower\<close> and
  \<open>str.strip\<close>.
\<close>

record enq_env =
  enq_raises :: "enq_step \<Rightarrow> bool"
  exists_at_entry :: bool
  probe_raises :: bool
  exists_before :: bool
  size_before :: int
  exists_after :: bool
  size_after :: int
  st_size :: int
  st_mtime :: int
  directory_upload_path :: "cfg_item option list option"
  directory_upload_uploadext :: "string option"
  directory_upload_copyext :: "string option"
  enq_now :: int
  str_lower :: "string \<Rightarrow> string"
  str_strip :: "string \<Rightarrow> string"

definition is_file_stable :: "enq_env \<Rightarrow> bool" where
  "is_file_stable e =
     (if probe_raises e then False
      else if \<not> exists_before e then False
      else if \<not> exists_after e then False
      else size_before e = size_after e \<and> size_before e > 0)"

definition get_or :: "'a option \<Rightarrow> 'a \<Rightarrow> 'a" where
  "get_or v d = (case v of None \<Rightarrow> d | Some x \<Rightarrow> x)"

fun match_config :: "string \<Rightarrow> cfg_item option list \<Rightarrow> cfg_item option" where
  "match_config mon_path [] = None"
| "match_config mon_path (None # items) = match_config mon_path items"
| "match_config mon_path (Some item # items) =
     (if mon_path = get_or (src item) [] then Some item else match_config mon_path items)"

text \<open>
  The list comprehension over a setting: \<open>.replace\<close>, \<open>.split\<close> at the comma, and for
  each entry a dot followed by \<open>ext.strip()\<close>. The argument \<open>st\<close> is \<open>str.strip\<close>.
\<close>

definition parse_exts :: "(string \<Rightarrow> string) \<Rightarrow> string \<Rightarrow> string list" where
  "parse_exts st cfg =
     map (\<lambda>ext. CHR ''.'' # st ext) (split_on CHR '','' (replace_fullwidth_comma cfg))"

text \<open>
  Step 5 of \<open>enqueue_file\<close>: the operation type and the destination of a file, or \<open>None\<close>
  when the file is skipped. The argument \<open>lw\<close> is \<open>str.lower\<close> and \<open>p\<close> is the path of
  the file; the suffix compared is \<open>file_path.suffix.lower()\<close>, and the entries of the two
  lists are compared as they are.
\<close>

definition classify ::
  "(string \<Rightarrow> string) \<Rightarrow> string list \<Rightarrow> string list \<Rightarrow> string \<Rightarrow> string \<Rightarrow> string \<Rightarrow>
   (string \<times> string) option" where
  "classify lw upload_exts copy_exts dremote dlocal p =
     (let file_suffix = lw (path_suffix p)
      in if file_suffix \<in> set upload_exts then
           (if dremote = [] then None else Some (''upload'', dremote))
         else if file_suffix \<in> set copy_exts then
           (if dlocal = [] then None else Some (''copy'', dlocal))
         else None)"

text \<open>
  The body of the \<open>try\<close> block of \<open>enqueue_file\<close>: \<open>Inr\<close> the state at a \<open>return\<close>
  or at the end of the block, \<open>Inl\<close> an exception raised in it (nothing was written then).
  Iterating over the setting \<open>None\<close> raises \<open>TypeError\<close>, \<open>.replace\<close> on \<open>None\<close> raises
  \<open>AttributeError\<close>, and inserting a path the table holds raises \<open>IntegrityError\<close>.
\<close>

definition enqueue_body :: "enq_env \<Rightarrow> string \<Rightarrow> string \<Rightarrow> world \<Rightarrow> exn + world" where
  "enqueue_body e event_path mon_path s =
     (if enq_raises e EntryExists then Inl (EnqFault EntryExists)
      else if \<not> exists_at_entry e then Inr s
      else if enq_raises e AcquireLock then Inl (EnqFault AcquireLock)
      else if is_excluded event_path then Inr s
      else if is_bluray event_path then Inr s
      else if \<not> is_file_stable e then Inr s
      else if enq_raises e Stat then Inl (EnqFault Stat)
      else let fsize = st_size e; fmtime = st_mtime e;
               fingerprint = fingerprint_of fsize fmtime
        in if enq_raises e HistoryLookup then Inl (EnqFault HistoryLookup)
           else if is_uploaded (history s) fingerprint fsize then Inr s
           else if enq_raises e QueueLookup then Inl (EnqFault QueueLookup)
           else if exists_in_queue (queue s) event_path then Inr s
           else case directory_upload_path e of
             None \<Rightarrow> Inl TypeError
           | Some items \<Rightarrow>
              (case match_config mon_path items of
                 None \<Rightarrow> Inr s
               | Some item \<Rightarrow>
                  (case directory_upload_uploadext e of
                     None \<Rightarrow> Inl AttributeError
                   | Some uext \<Rightarrow>
                      (case directory_upload_copyext e of
                         None \<Rightarrow> Inl AttributeError
                       | Some cext \<Rightarrow>
                          (case classify (str_lower e) (parse_exts (str_strip e) uext)
                                  (parse_exts (str_strip e) cext)
                                  (get_or (cfg_dest_remote item) [])
                                  (get_or (cfg_dest_local item) []) event_path of
                             None \<Rightarrow> Inr s
                           | Some (op, target) \<Rightarrow>
                              (if enq_raises e CreateTask then Inl (EnqFault CreateTask)
                               else case create_task (queue s) event_path
                                      (path_name event_path) fsize fmtime mon_path op
                                      (if op = ''upload''
                                       then Some (get_or (cfg_dest_remote item) []) else None)
                                      (if op = ''copy''
                                       then Some (get_or (cfg_dest_local item) []) else None)
                                      (get_or (cfg_delete item) False) (enq_now e) of
                                  None \<Rightarrow> Inl IntegrityError
                                | Some q \<Rightarrow> Inr (s\<lparr>queue := q\<rparr>)))))))"

text \<open>
  \<open>enqueue_file\<close> as its caller sees it: \<open>Inr\<close> the state when the call returns, \<open>Inl\<close>
  an exception that leaves the function. Before the \<open>try\<close> block the function builds
  \<open>Path(event_path)\<close> and writes a log line, which do not raise for a string; the
  handler of the block catches \<open>Exception\<close>, logs it, and the function ends.
\<close>

definition enqueue_file :: "enq_env \<Rightarrow> string \<Rightarrow> string \<Rightarrow> world \<Rightarrow> exn + world" where
  "enqueue_file e event_path mon_path s =
     (case enqueue_body e event_path mon_path s of
        Inl x \<Rightarrow> Inr (s\<lparr>error_log := error_log s @ [x]\<rparr>)
      | Inr s' \<Rightarrow> Inr s')"

section \<open>Conditions on a pass, and example values\<close>

text \<open>No call of the pass raises; the transfer fails whatever task it is given.\<close>

definition no_fault :: "proc_env \<Rightarrow> bool" where
  "no_fault e = (\<forall>p. \<not> raises e p)"

definition attempt_fails :: "proc_env \<Rightarrow> bool" where
  "attempt_fails e = (\<forall>t. \<not> fst (upload_file e t) \<and> \<not> fst (copy_file e t))"

text \<open>
  The one thing assumed of \<open>str.lower\<close> and \<open>str.strip\<close>: what they do to a string of
  ASCII characters.
\<close>

definition ascii_conform :: "(string \<Rightarrow> string) \<Rightarrow> (string \<Rightarrow> string) \<Rightarrow> bool" where
  "ascii_conform lw st =
     (\<forall>s. is_ascii s \<longrightarrow> lw s = ascii_lower s \<and> st s = ascii_strip s)"

text \<open>
  The file of the scenario of the specification: \<open>movie.mkv\<close>, 1000000000 bytes, modified
  at 1700000000; and a second task created later.
\<close>

definition ex_task :: task where
  "ex_task =
     \<lparr>task_id = 1, file_path = ''/watch/movie.mkv'', file_name = ''movie.mkv'',
      file_size = 1000000000, file_mtime = 1700000000, monitor_path = ''/watch'',
      dest_remote = Some ''/cloud'', dest_local = None, operation_type = ''upload'',
      delete_source = True, status = ''pending'', retry_count = 0, error_message = None,
      created_at = 100, updated_at = 100\<rparr>"

definition ex_task2 :: task where
  "ex_task2 = ex_task\<lparr>task_id := 2, file_path := ''/watch/show.mkv'',
                        file_name := ''show.mkv'', created_at := 200, updated_at := 200\<rparr>"

text \<open>
  A pass in which nothing raises and every transfer fails, one in which the transfer
  succeeds, a state with the first task queued and its file present, and a history row
  with the fingerprint of that file.
\<close>

definition ex_env :: proc_env where
  "ex_env = \<lparr>raises = (\<lambda>p. False), now = (\<lambda>p. 500),
              upload_file = (\<lambda>t. (False, ''timeout'')),
              copy_file = (\<lambda>t. (False, ''disk full'')), unlink_fails = False\<rparr>"

definition ex_env_ok :: proc_env where
  "ex_env_ok = ex_env\<lparr>upload_file := (\<lambda>t. (True, [])), copy_file := (\<lambda>t. (True, []))\<rparr>"

definition ex_world :: world where
  "ex_world = \<lparr>is_processing = False, queue = [ex_task], history = [],
                files = {''/watch/movie.mkv''}, transfers = [], error_log = []\<rparr>"


definition ex_hist :: hist where
  "ex_hist =
     \<lparr>hist_id = 1, file_fingerprint = ''1000000000_1700000000'', h_file_size = 1000000000,
      h_file_path = ''/elsewhere/movie.mkv'', h_file_name = ''movie.mkv'',
      h_dest_remote = Some ''/cloud'', h_dest_local = None, h_operation_type = ''upload'',
      completed_at = 50\<rparr>"

text \<open>
  A call of \<open>enqueue_file\<close> for the file of the scenario: the file is stable, the
  monitored root has an entry in the settings, and nothing raises.
\<close>

definition ex_enq_env :: enq_env where
  "ex_enq_env =
     \<lparr>enq_raises = (\<lambda>p. False), exists_at_entry = True, probe_raises = False,
      exists_before = True, size_before = 1000000000, exists_after = True,
      size_after = 1000000000, st_size = 1000000000, st_mtime = 1700000000,
      directory_upload_path =
        Some [None, Some \<lparr>src = Some ''/watch'', cfg_dest_remote = Some ''/cloud'',
                          cfg_dest_local = Some ''/local'', cfg_delete = Some True\<rparr>],
      directory_upload_uploadext = Some ''mp4, mkv'',
      directory_upload_copyext = Some ''srt'', enq_now = 100,
      str_lower = ascii_lower, str_strip = ascii_strip\<rparr>"

section \<open>Properties of the task store\<close>

lemma get_next_pending_task_None:
  "(get_next_pending_task db = None) = (filter (\<lambda>r. status r = ''pending'') db = [])"
proof -
  have "(sort_key created_at (filter (\<lambda>r. status r = ''pending'') db) = [])
        = (filter (\<lambda>r. status r = ''pending'') db = [])"
    using length_sort [of created_at "filter (\<lambda>r. status r = ''pending'') db"]
    by (metis length_0_conv)
  then show ?thesis
    by (cases "sort_key created_at (filter (\<lambda>r. status r = ''pending'') db)")
       (simp_all add: get_next_pending_task_def)
qed

lemma get_next_pending_task_Some:
  assumes "get_next_pending_task db = Some t"
  shows "t \<in> set db" and "status t = ''pending''"
    and "\<And>r. r \<in> set db \<Longrightarrow> status r = ''pending'' \<Longrightarrow> created_at t \<le> created_at r"
proof -
  let ?ps = "filter (\<lambda>r. status r = ''pending'') db"
  obtain rest where srt: "sort_key created_at ?ps = t # rest"
    using assms
    by (cases "sort_key created_at ?ps") (simp_all add: get_next_pending_task_def)
  have "t \<in> set (sort_key created_at ?ps)"
    by (simp only: srt list.set_intros)
  then have mem: "t \<in> set ?ps" by (simp only: set_sort)
  from mem show "t \<in> set db" by simp
  from mem show "status t = ''pending''" by simp
  fix r assume r: "r \<in> set db" "status r = ''pending''"
  have "sorted (map created_at (t # rest))"
    using sorted_sort_key [of created_at ?ps] by (simp only: srt)
  moreover have "r \<in> set ?ps" using r by simp
  then have "r \<in> set (sort_key created_at ?ps)" by (simp only: set_sort)
  then have "r \<in> set (t # rest)" by (simp only: srt)
  ultimately show "created_at t \<le> created_at r"
    by auto
qed

text \<open>
  C4 (FIFO dequeue). \<open>get_next_pending_task\<close> returns none exactly when the table has no
  pending row; otherwise it returns a pending row of the table whose \<open>created_at\<close> is the
  least among the pending rows, whatever the order of the rows in the table. Hence of two
  pending rows A and B with A created before B, B is never the one selected.
\<close>

theorem get_next_pending_task_fifo:
  "(get_next_pending_task db = None \<longleftrightarrow> (\<forall>r \<in> set db. status r \<noteq> ''pending'')) \<and>
   (\<forall>t. get_next_pending_task db = Some t \<longrightarrow>
      t \<in> set db \<and> status t = ''pending'' \<and>
      (\<forall>r \<in> set db. status r = ''pending'' \<longrightarrow> created_at t \<le> created_at r)) \<and>
   (\<forall>a b. a \<in> set db \<and> b \<in> set db \<and> status a = ''pending'' \<and> status b = ''pending'' \<and>
      created_at a < created_at b \<longrightarrow> get_next_pending_task db \<noteq> Some b)"
proof (intro conjI allI impI ballI)
  show "get_next_pending_task db = None \<longleftrightarrow> (\<forall>r \<in> set db. status r \<noteq> ''pending'')"
    by (simp only: get_next_pending_task_None filter_empty_conv)
next
  fix t assume "get_next_pending_task db = Some t"
  then show "t \<in> set db" by (rule get_next_pending_task_Some)
next
  fix t assume "get_next_pending_task db = Some t"
  then show "status t = ''pending''" by (rule get_next_pending_task_Some)
next
  fix t r assume "get_next_pending_task db = Some t" "r \<in> set db" "status r = ''pending''"
  then show "created_at t \<le> created_at r" by (rule get_next_pending_task_Some)
next
  fix a b
  assume h: "a \<in> set db \<and> b \<in> set db \<and> status a = ''pending'' \<and> status b = ''pending'' \<and>
      created_at a < created_at b"
  show "get_next_pending_task db \<noteq> Some b"
  proof
    assume sel: "get_next_pending_task db = Some b"
    from h have "a \<in> set db" and "status a = ''pending''" by simp_all
    with sel have "created_at b \<le> created_at a"
      by (rule get_next_pending_task_Some(3))
    with h show False by simp
  qed
qed

text \<open>
  The later task stands first in the table and the earlier one is selected; a table with no
  pending row gives none.
\<close>

theorem get_next_pending_task_fifo_witness:
  "get_next_pending_task [ex_task2, ex_task] \<noteq> Some ex_task2 \<and>
   get_next_pending_task [ex_task2, ex_task] = Some ex_task \<and>
   get_next_pending_task [ex_task\<lparr>status := ''failed''\<rparr>] = None"
proof -
  have pre: "ex_task \<in> set [ex_task2, ex_task] \<and> ex_task2 \<in> set [ex_task2, ex_task] \<and>
      status ex_task = ''pending'' \<and> status ex_task2 = ''pending'' \<and>
      created_at ex_task < created_at ex_task2"
    by (simp add: ex_task_def ex_task2_def)
  have "\<forall>a b. a \<in> set [ex_task2, ex_task] \<and> b \<in> set [ex_task2, ex_task] \<and>
      status a = ''pending'' \<and> status b = ''pending'' \<and> created_at a < created_at b
      \<longrightarrow> get_next_pending_task [ex_task2, ex_task] \<noteq> Some b"
    using get_next_pending_task_fifo [of "[ex_task2, ex_task]"] by (elim conjE)
  then have "get_next_pending_task [ex_task2, ex_task] \<noteq> Some ex_task2"
    using pre by (elim allE [of _ ex_task] allE [of _ ex_task2] impE) assumption+
  moreover have "get_next_pending_task [ex_task2, ex_task] = Some ex_task"
    by (simp add: get_next_pending_task_def ex_task_def ex_task2_def)
  moreover have "get_next_pending_task [ex_task\<lparr>status := ''failed''\<rparr>] = None"
    by (simp add: get_next_pending_task_def ex_task_def)
  ultimately show ?thesis by (intro conjI)
qed

text \<open>
  C6 (recovery). \<open>reset_processing_tasks\<close> keeps the number and the order of the rows;
  it returns the number of rows whose status was processing; each such row becomes pending
  with a new \<open>updated_at\<close> and nothing else changed; every other row is left as it was; no
  row is processing afterwards; and with no processing row the table is unchanged and the
  count is 0.
\<close>

theorem reset_processing_tasks_frame:
  "length (fst (reset_processing_tasks db ts)) = length db \<and>
   snd (reset_processing_tasks db ts) = length (filter (\<lambda>r. status r = ''processing'') db) \<and>
   (\<forall>i < length db.
      (status (db ! i) = ''processing'' \<longrightarrow>
         fst (reset_processing_tasks db ts) ! i
           = (db ! i)\<lparr>status := ''pending'', updated_at := ts\<rparr>) \<and>
      (status (db ! i) \<noteq> ''processing'' \<longrightarrow>
         fst (reset_processing_tasks db ts) ! i = db ! i)) \<and>
   (\<forall>r \<in> set (fst (reset_processing_tasks db ts)). status r \<noteq> ''processing'') \<and>
   ((\<forall>r \<in> set db. status r \<noteq> ''processing'') \<longrightarrow> reset_processing_tasks db ts = (db, 0))"
proof (intro conjI)
  show "length (fst (reset_processing_tasks db ts)) = length db"
    by (simp add: reset_processing_tasks_def)
  show "snd (reset_processing_tasks db ts) = length (filter (\<lambda>r. status r = ''processing'') db)"
    by (simp add: reset_processing_tasks_def)
  show "\<forall>i < length db.
      (status (db ! i) = ''processing'' \<longrightarrow>
         fst (reset_processing_tasks db ts) ! i
           = (db ! i)\<lparr>status := ''pending'', updated_at := ts\<rparr>) \<and>
      (status (db ! i) \<noteq> ''processing'' \<longrightarrow>
         fst (reset_processing_tasks db ts) ! i = db ! i)"
    by (simp add: reset_processing_tasks_def)
  show "\<forall>r \<in> set (fst (reset_processing_tasks db ts)). status r \<noteq> ''processing''"
    by (auto simp add: reset_processing_tasks_def)
  show "(\<forall>r \<in> set db. status r \<noteq> ''processing'') \<longrightarrow> reset_processing_tasks db ts = (db, 0)"
  proof
    assume a: "\<forall>r \<in> set db. status r \<noteq> ''processing''"
    then have "map (\<lambda>r. if status r = ''processing''
                then r\<lparr>status := ''pending'', updated_at := ts\<rparr> else r) db = db"
      by (induction db) simp_all
    moreover from a have "filter (\<lambda>r. status r = ''processing'') db = []"
      by (simp add: filter_empty_conv)
    ultimately show "reset_processing_tasks db ts = (db, 0)"
      by (simp add: reset_processing_tasks_def)
  qed
qed

text \<open>
  One processing row and one completed row: the count is 1, the first row is pending again
  and the second is untouched; a second call finds nothing to reset.
\<close>

theorem reset_processing_tasks_frame_witness:
  "snd (reset_processing_tasks
          [ex_task\<lparr>status := ''processing''\<rparr>, ex_task2\<lparr>status := ''completed''\<rparr>] 900) = 1 \<and>
   fst (reset_processing_tasks
          [ex_task\<lparr>status := ''processing''\<rparr>, ex_task2\<lparr>status := ''completed''\<rparr>] 900) ! 0
     = ex_task\<lparr>status := ''pending'', updated_at := 900\<rparr> \<and>
   fst (reset_processing_tasks
          [ex_task\<lparr>status := ''processing''\<rparr>, ex_task2\<lparr>status := ''completed''\<rparr>] 900) ! 1
     = ex_task2\<lparr>status := ''completed''\<rparr> \<and>
   reset_processing_tasks
     [ex_task\<lparr>status := ''pending'', updated_at := 900\<rparr>, ex_task2\<lparr>status := ''completed''\<rparr>] 950
     = ([ex_task\<lparr>status := ''pending'', updated_at := 900\<rparr>,
         ex_task2\<lparr>status := ''completed''\<rparr>], 0)"
proof -
  let ?db = "[ex_task\<lparr>status := ''processing''\<rparr>, ex_task2\<lparr>status := ''completed''\<rparr>]"
  let ?db' = "[ex_task\<lparr>status := ''pending'', updated_at := 900\<rparr>,
               ex_task2\<lparr>status := ''completed''\<rparr>]"
  note th = reset_processing_tasks_frame [of ?db 900]
  have cnt: "snd (reset_processing_tasks ?db 900) = 1"
    using th [THEN conjunct2, THEN conjunct1] by simp
  note rows = th [THEN conjunct2, THEN conjunct2, THEN conjunct1]
  have r0: "fst (reset_processing_tasks ?db 900) ! 0
              = ex_task\<lparr>status := ''pending'', updated_at := 900\<rparr>"
    using rows [THEN spec, of 0] by simp
  have r1: "fst (reset_processing_tasks ?db 900) ! 1 = ex_task2\<lparr>status := ''completed''\<rparr>"
    using rows [THEN spec, of 1] by (simp add: ex_task2_def)
  have none: "\<forall>r \<in> set ?db'. status r \<noteq> ''processing''"
    by (simp add: ex_task2_def)
  have again: "reset_processing_tasks ?db' 950 = (?db', 0)"
    using reset_processing_tasks_frame [of ?db' 950, THEN conjunct2, THEN conjunct2,
      THEN conjunct2, THEN conjunct2] none by (elim impE) assumption+
  from cnt r0 r1 again show ?thesis by (intro conjI)
qed

section \<open>The paths of one pass\<close>


lemma raises_no_fault: "no_fault e \<Longrightarrow> raises e p = False"
  by (simp add: no_fault_def)

lemma execute_task_outcome: "fst (execute_task e t s) = fst (execute_task e t s')"
  by (simp add: execute_task_def)

lemma execute_task_frame:
  "is_processing (snd (execute_task e t s)) = is_processing s"
  "queue (snd (execute_task e t s)) = queue s"
  "history (snd (execute_task e t s)) = history s"
  "files (snd (execute_task e t s)) = files s"
  "error_log (snd (execute_task e t s)) = error_log s"
  by (simp_all add: execute_task_def)

lemma run_transfer_flag: "is_processing (snd (run_transfer e t s)) = is_processing s"
  by (simp add: run_transfer_def Let_def split_beta execute_task_frame delete_source_file_def)

lemma process_body_flag: "is_processing (snd (process_body e s)) = is_processing s"
  by (simp add: process_body_def Let_def run_transfer_flag split: option.split)


lemma run_transfer_changes:
  assumes "history (snd (run_transfer e t s)) \<noteq> history s \<or>
           files (snd (run_transfer e t s)) \<noteq> files s"
  shows "fst (fst (execute_task e t s))"
  using assms
  by (simp add: run_transfer_def Let_def split_beta execute_task_frame split: if_splits)

lemma process_body_changes:
  assumes "history (snd (process_body e s)) \<noteq> history s \<or>
           files (snd (process_body e s)) \<noteq> files s"
  shows "\<exists>t. get_next_pending_task (queue s) = Some t \<and> file_path t \<in> files s \<and>
     \<not> is_uploaded (history s) (fingerprint_of (file_size t) (file_mtime t)) (file_size t) \<and>
     fst (fst (execute_task e t s))"
proof (cases "get_next_pending_task (queue s)")
  case None
  with assms show ?thesis by (simp add: process_body_def split: if_splits)
next
  case (Some t)
  let ?s1 = "s\<lparr>queue := mark_as_processing (queue s) (task_id t) (now e MarkProcessing)\<rparr>"
  from assms Some have
    run: "history (snd (run_transfer e t ?s1)) \<noteq> history ?s1 \<or>
          files (snd (run_transfer e t ?s1)) \<noteq> files ?s1"
    and ex: "file_path t \<in> files s"
    and nu: "\<not> is_uploaded (history s) (fingerprint_of (file_size t) (file_mtime t)) (file_size t)"
    by (simp_all add: process_body_def Let_def split: if_splits)
  from run have "fst (fst (execute_task e t ?s1))" by (rule run_transfer_changes)
  then have "fst (fst (execute_task e t s))"
    using execute_task_outcome [of e t ?s1 s] by simp
  with Some ex nu show ?thesis by simp
qed


lemma process_missing:
  assumes nb: "\<not> is_processing s" and nf: "no_fault e"
    and sel: "get_next_pending_task (queue s) = Some t"
    and miss: "file_path t \<notin> files s"
  shows "process_one_task e s =
    (True, s\<lparr>queue := mark_as_failed
               (mark_as_processing (queue s) (task_id t) (now e MarkProcessing))
               (task_id t) msg_file_missing (retry_count t) (now e MarkMissing)\<rparr>)"
  using nb sel miss
  by (simp add: process_one_task_def process_body_def raises_no_fault [OF nf])

lemma process_duplicate:
  assumes nb: "\<not> is_processing s" and nf: "no_fault e"
    and sel: "get_next_pending_task (queue s) = Some t"
    and ex: "file_path t \<in> files s"
    and up: "is_uploaded (history s) (fingerprint_of (file_size t) (file_mtime t)) (file_size t)"
  shows "process_one_task e s =
    (True, s\<lparr>queue := mark_as_completed
               (mark_as_processing (queue s) (task_id t) (now e MarkProcessing))
               (task_id t) (now e MarkDuplicate)\<rparr>)"
  using nb sel ex up
  by (simp add: process_one_task_def process_body_def raises_no_fault [OF nf])

lemma process_failed:
  assumes nb: "\<not> is_processing s" and nf: "no_fault e"
    and sel: "get_next_pending_task (queue s) = Some t"
    and ex: "file_path t \<in> files s"
    and nu: "\<not> is_uploaded (history s) (fingerprint_of (file_size t) (file_mtime t)) (file_size t)"
    and fl: "\<not> fst (fst (execute_task e t s))"
  shows "process_one_task e s =
    (True, s\<lparr>queue :=
        (if retry_count t + 1 < 3
         then mark_as_pending_retry
                (mark_as_processing (queue s) (task_id t) (now e MarkProcessing))
                (task_id t) (retry_count t + 1) (now e MarkRetry)
         else mark_as_failed
                (mark_as_processing (queue s) (task_id t) (now e MarkProcessing))
                (task_id t) (snd (fst (execute_task e t s))) (retry_count t + 1)
                (now e MarkFailed)),
        transfers := transfers (snd (execute_task e t s))\<rparr>)"
proof -
  let ?s1 = "s\<lparr>is_processing := True,
                queue := mark_as_processing (queue s) (task_id t) (now e MarkProcessing)\<rparr>"
  have o: "fst (execute_task e t ?s1) = fst (execute_task e t s)"
    by (rule execute_task_outcome)
  have tr: "transfers (snd (execute_task e t ?s1)) = transfers (snd (execute_task e t s))"
    by (simp add: execute_task_def)
  have body: "process_body e (s\<lparr>is_processing := True\<rparr>) = run_transfer e t ?s1"
    using sel ex nu by (simp add: process_body_def raises_no_fault [OF nf])
  show ?thesis
    using nb fl
    by (simp add: process_one_task_def body run_transfer_def Let_def split_beta o tr
        execute_task_frame raises_no_fault [OF nf])
qed


lemma failed_after_processing:
  "mark_as_failed (mark_as_processing db tid ts1) tid msg rc ts2 =
     map (\<lambda>r. if task_id r = tid
               then r\<lparr>status := ''failed'', error_message := Some msg, retry_count := rc,
                      updated_at := ts2\<rparr> else r) db"
  by (simp add: mark_as_failed_def mark_as_processing_def)

lemma completed_after_processing:
  "mark_as_completed (mark_as_processing db tid ts1) tid ts2 =
     map (\<lambda>r. if task_id r = tid
               then r\<lparr>status := ''completed'', updated_at := ts2\<rparr> else r) db"
  by (simp add: mark_as_completed_def mark_as_processing_def)

lemma retry_after_processing:
  "mark_as_pending_retry (mark_as_processing db tid ts1) tid rc ts2 =
     map (\<lambda>r. if task_id r = tid
               then r\<lparr>status := ''pending'', retry_count := rc, updated_at := ts2\<rparr>
               else r) db"
  by (simp add: mark_as_pending_retry_def mark_as_processing_def)

lemma rows_of_unique:
  "distinct (map task_id db) \<Longrightarrow> t \<in> set db \<Longrightarrow> rows_of (task_id t) db = [t]"
proof (induction db)
  case Nil
  then show ?case by simp
next
  case (Cons r db)
  show ?case
  proof (cases "r = t")
    case True
    have "task_id t \<notin> task_id ` set db"
      using Cons.prems(1) True by simp
    then have "\<forall>x \<in> set db. task_id x \<noteq> task_id t"
      by (metis image_eqI)
    then have "filter (\<lambda>x. task_id x = task_id t) db = []"
      by (simp add: filter_empty_conv)
    with True show ?thesis by (simp add: rows_of_def)
  next
    case False
    with Cons.prems have mem: "t \<in> set db" and d: "distinct (map task_id db)"
      and ne: "task_id r \<noteq> task_id t"
      by auto
    from Cons.IH [OF d mem] ne show ?thesis by (simp add: rows_of_def)
  qed
qed

lemma rows_of_map:
  "(\<And>r. task_id (g r) = task_id r) \<Longrightarrow> rows_of tid (map g db) = map g (rows_of tid db)"
  by (simp add: rows_of_def filter_map comp_def)

lemma insort_key_map:
  "(\<And>x. k (g x) = k x) \<Longrightarrow>
     insort_key k (g x) (map g ys) = map g (insort_key k x ys)"
  by (induction ys) simp_all

lemma sort_key_map:
  "(\<And>x. k (g x) = k x) \<Longrightarrow> sort_key k (map g xs) = map g (sort_key k xs)"
  by (induction xs) (simp_all add: insort_key_map)

text \<open>
  An update of the selected row that keeps it pending and keeps its \<open>created_at\<close> leaves
  it the selected row.
\<close>

lemma get_next_after_update:
  assumes sel: "get_next_pending_task db = Some t"
    and d: "distinct (map task_id db)"
    and g: "g = (\<lambda>r. if task_id r = task_id t then h r else r)"
    and hc: "\<And>r. created_at (h r) = created_at r"
    and hs: "status (h t) = ''pending''"
  shows "get_next_pending_task (map g db) = Some (h t)"
proof -
  let ?P = "\<lambda>r. status r = ''pending''"
  have tin: "t \<in> set db" and tp: "status t = ''pending''"
    using sel by (rule get_next_pending_task_Some)+
  have same: "\<And>r. r \<in> set db \<Longrightarrow> task_id r = task_id t \<Longrightarrow> r = t"
    using d tin by (meson distinct_map inj_onD)
  have gc: "\<And>r. created_at (g r) = created_at r"
    by (simp add: g hc)
  have "filter ?P (map g db) = map g (filter (?P \<circ> g) db)"
    by (simp add: filter_map)
  also have "filter (?P \<circ> g) db = filter ?P db"
  proof (rule filter_cong [OF refl])
    fix r assume "r \<in> set db"
    then show "(?P \<circ> g) r = ?P r"
      using same [of r] tp hs by (auto simp add: g)
  qed
  finally have f: "filter ?P (map g db) = map g (filter ?P db)" .
  obtain rest where srt: "sort_key created_at (filter ?P db) = t # rest"
    using sel
    by (cases "sort_key created_at (filter ?P db)")
       (simp_all add: get_next_pending_task_def)
  have "sort_key created_at (filter ?P (map g db)) = map g (t # rest)"
    by (simp only: f sort_key_map [of created_at g, OF gc] srt)
  then show ?thesis
    by (simp add: get_next_pending_task_def g)
qed

section \<open>Retries\<close>


lemma attempt_fails_execute: "attempt_fails e \<Longrightarrow> \<not> fst (fst (execute_task e t s))"
  by (simp add: attempt_fails_def execute_task_def)

text \<open>
  A failed pass below the limit: the task is pending again with one more retry, and the
  next pass meets the same conditions.
\<close>

lemma retry_step:
  assumes nb: "\<not> is_processing s" and d: "distinct (map task_id (queue s))"
    and nf: "no_fault e"
    and sel: "get_next_pending_task (queue s) = Some t"
    and ex: "file_path t \<in> files s"
    and nu: "\<not> is_uploaded (history s) (fingerprint_of (file_size t) (file_mtime t)) (file_size t)"
    and fl: "\<not> fst (fst (execute_task e t s))"
    and lt: "retry_count t + 1 < 3"
    and t': "t' = t\<lparr>status := ''pending'', retry_count := retry_count t + 1,
                     updated_at := now e MarkRetry\<rparr>"
    and s': "s' = snd (process_one_task e s)"
  shows "\<not> is_processing s'" and "distinct (map task_id (queue s'))"
    and "get_next_pending_task (queue s') = Some t'"
    and "file_path t' \<in> files s'"
    and "\<not> is_uploaded (history s') (fingerprint_of (file_size t') (file_mtime t')) (file_size t')"
    and "rows_of (task_id t) (queue s') = [t']"
proof -
  let ?h = "\<lambda>r. r\<lparr>status := ''pending'', retry_count := retry_count t + 1,
                     updated_at := now e MarkRetry\<rparr>"
  let ?g = "\<lambda>r. if task_id r = task_id t then ?h r else r"
  have tin: "t \<in> set (queue s)" using sel by (rule get_next_pending_task_Some)
  have s'eq: "s' = s\<lparr>queue := map ?g (queue s),
                      transfers := transfers (snd (execute_task e t s))\<rparr>"
    using process_failed [OF nb nf sel ex nu fl] lt
    by (simp add: s' retry_after_processing)
  have q: "queue s' = map ?g (queue s)" by (simp add: s'eq)
  show "\<not> is_processing s'" using nb by (simp add: s'eq)
  have ids: "map task_id (map ?g (queue s)) = map task_id (queue s)"
    by (induction "queue s") simp_all
  show "distinct (map task_id (queue s'))" using d by (simp only: q ids)
  show "get_next_pending_task (queue s') = Some t'"
    unfolding q t'
    by (rule get_next_after_update [OF sel d refl]) simp_all
  show "file_path t' \<in> files s'" using ex by (simp add: s'eq t')
  show "\<not> is_uploaded (history s') (fingerprint_of (file_size t') (file_mtime t')) (file_size t')"
    using nu by (simp add: s'eq t')
  have "rows_of (task_id t) (map ?g (queue s)) = map ?g (rows_of (task_id t) (queue s))"
    by (rule rows_of_map) simp
  also have "\<dots> = map ?g [t]" by (simp only: rows_of_unique [OF d tin])
  finally show "rows_of (task_id t) (queue s') = [t']" by (simp add: q t')
qed

text \<open>A failed pass at the limit: the task is failed and keeps the message of this pass.\<close>

lemma fail_step:
  assumes nb: "\<not> is_processing s" and d: "distinct (map task_id (queue s))"
    and nf: "no_fault e"
    and sel: "get_next_pending_task (queue s) = Some t"
    and ex: "file_path t \<in> files s"
    and nu: "\<not> is_uploaded (history s) (fingerprint_of (file_size t) (file_mtime t)) (file_size t)"
    and fl: "\<not> fst (fst (execute_task e t s))"
    and ge: "\<not> retry_count t + 1 < 3"
  shows "rows_of (task_id t) (queue (snd (process_one_task e s))) =
     [t\<lparr>status := ''failed'', error_message := Some (snd (fst (execute_task e t s))),
        retry_count := retry_count t + 1, updated_at := now e MarkFailed\<rparr>]"
proof -
  let ?g = "\<lambda>r. if task_id r = task_id t
     then r\<lparr>status := ''failed'', error_message := Some (snd (fst (execute_task e t s))),
            retry_count := retry_count t + 1, updated_at := now e MarkFailed\<rparr> else r"
  have tin: "t \<in> set (queue s)" using sel by (rule get_next_pending_task_Some)
  have q: "queue (snd (process_one_task e s)) = map ?g (queue s)"
    using process_failed [OF nb nf sel ex nu fl] ge
    by (simp add: failed_after_processing)
  have "rows_of (task_id t) (map ?g (queue s)) = map ?g (rows_of (task_id t) (queue s))"
    by (rule rows_of_map) simp
  also have "\<dots> = map ?g [t]" by (simp only: rows_of_unique [OF d tin])
  finally show ?thesis by (simp add: q)
qed


text \<open>
  C1 (retry policy). The ids of the queue are distinct (the primary key). A task is
  selected, its file exists, its fingerprint is not in the history, nothing raises, and
  the transfer fails. Then the row of the task, the only row with its id, has its retry
  count incremented by one; it is pending again, with its \<open>created_at\<close> and every other
  field but \<open>updated_at\<close> as before, when the new count is below 3, and it is failed with
  the message of the failed transfer otherwise. Hence three failing passes on a task that
  starts at count 0 give the counts 1, 2, 3, and the task ends failed with the message of
  the third failure.
\<close>

theorem failed_transfer_retry:
  assumes nb: "\<not> is_processing s" and d: "distinct (map task_id (queue s))"
    and sel: "get_next_pending_task (queue s) = Some t"
    and ex: "file_path t \<in> files s"
    and nu: "\<not> is_uploaded (history s) (fingerprint_of (file_size t) (file_mtime t)) (file_size t)"
    and nf: "no_fault e1"
  shows "(\<not> fst (fst (execute_task e1 t s)) \<longrightarrow>
      rows_of (task_id t) (queue (snd (process_one_task e1 s))) =
        [if retry_count t + 1 < 3
         then t\<lparr>status := ''pending'', retry_count := retry_count t + 1,
                updated_at := now e1 MarkRetry\<rparr>
         else t\<lparr>status := ''failed'',
                error_message := Some (snd (fst (execute_task e1 t s))),
                retry_count := retry_count t + 1, updated_at := now e1 MarkFailed\<rparr>]) \<and>
    (retry_count t = 0 \<and> no_fault e2 \<and> no_fault e3 \<and>
     attempt_fails e1 \<and> attempt_fails e2 \<and> attempt_fails e3 \<longrightarrow>
      rows_of (task_id t) (queue (run_passes [e1] s)) =
        [t\<lparr>status := ''pending'', retry_count := 1, updated_at := now e1 MarkRetry\<rparr>] \<and>
      rows_of (task_id t) (queue (run_passes [e1, e2] s)) =
        [t\<lparr>status := ''pending'', retry_count := 2, updated_at := now e2 MarkRetry\<rparr>] \<and>
      rows_of (task_id t) (queue (run_passes [e1, e2, e3] s)) =
        [t\<lparr>status := ''failed'',
           error_message := Some (snd (fst (execute_task e3
              (t\<lparr>status := ''pending'', retry_count := 2, updated_at := now e2 MarkRetry\<rparr>)
              s))),
           retry_count := 3, updated_at := now e3 MarkFailed\<rparr>])"
proof (intro conjI impI)
  assume fl: "\<not> fst (fst (execute_task e1 t s))"
  show "rows_of (task_id t) (queue (snd (process_one_task e1 s))) =
        [if retry_count t + 1 < 3
         then t\<lparr>status := ''pending'', retry_count := retry_count t + 1,
                updated_at := now e1 MarkRetry\<rparr>
         else t\<lparr>status := ''failed'',
                error_message := Some (snd (fst (execute_task e1 t s))),
                retry_count := retry_count t + 1, updated_at := now e1 MarkFailed\<rparr>]"
  proof (cases "retry_count t + 1 < 3")
    case True
    from retry_step(6) [OF nb d nf sel ex nu fl True refl refl] True
    show ?thesis by simp
  next
    case False
    from fail_step [OF nb d nf sel ex nu fl False] False
    show ?thesis by simp
  qed
next
  assume a: "retry_count t = 0 \<and> no_fault e2 \<and> no_fault e3 \<and>
     attempt_fails e1 \<and> attempt_fails e2 \<and> attempt_fails e3"
  define t1 where "t1 = t\<lparr>status := ''pending'', retry_count := retry_count t + 1,
                           updated_at := now e1 MarkRetry\<rparr>"
  define s1 where "s1 = snd (process_one_task e1 s)"
  define t2 where "t2 = t1\<lparr>status := ''pending'', retry_count := retry_count t1 + 1,
                            updated_at := now e2 MarkRetry\<rparr>"
  define s2 where "s2 = snd (process_one_task e2 s1)"
  from a have rc: "retry_count t = 0" and nf2: "no_fault e2" and nf3: "no_fault e3"
    and f1: "attempt_fails e1" and f2: "attempt_fails e2" and f3: "attempt_fails e3"
    by simp_all
  have lt1: "retry_count t + 1 < 3" using rc by simp
  note st1 = retry_step [OF nb d nf sel ex nu attempt_fails_execute [OF f1] lt1 t1_def s1_def]
  have lt2: "retry_count t1 + 1 < 3" using rc by (simp add: t1_def)
  note st2 = retry_step [OF st1(1) st1(2) nf2 st1(3) st1(4) st1(5)
      attempt_fails_execute [OF f2] lt2 t2_def s2_def]
  have ge3: "\<not> retry_count t2 + 1 < 3" using rc by (simp add: t2_def t1_def)
  note st3 = fail_step [OF st2(1) st2(2) nf3 st2(3) st2(4) st2(5)
      attempt_fails_execute [OF f3] ge3]
  have id1: "task_id t1 = task_id t" and id2: "task_id t2 = task_id t"
    by (simp_all add: t1_def t2_def)
  have t2eq: "t2 = t\<lparr>status := ''pending'', retry_count := 2, updated_at := now e2 MarkRetry\<rparr>"
    using rc by (simp add: t2_def t1_def)
  have o: "fst (execute_task e3 t2 s2) = fst (execute_task e3 t2 s)"
    by (rule execute_task_outcome)
  show "rows_of (task_id t) (queue (run_passes [e1] s)) =
        [t\<lparr>status := ''pending'', retry_count := 1, updated_at := now e1 MarkRetry\<rparr>]"
    using st1(6) rc by (simp add: s1_def t1_def)
  show "rows_of (task_id t) (queue (run_passes [e1, e2] s)) =
        [t\<lparr>status := ''pending'', retry_count := 2, updated_at := now e2 MarkRetry\<rparr>]"
    using st2(6) by (simp add: s2_def s1_def id1 t2eq)
  show "rows_of (task_id t) (queue (run_passes [e1, e2, e3] s)) =
        [t\<lparr>status := ''failed'',
           error_message := Some (snd (fst (execute_task e3
              (t\<lparr>status := ''pending'', retry_count := 2, updated_at := now e2 MarkRetry\<rparr>)
              s))),
           retry_count := 3, updated_at := now e3 MarkFailed\<rparr>]"
    using st3 by (simp add: s2_def [symmetric] s1_def [symmetric] id2 o) (simp add: t2eq)
qed


lemma ex_world_select: "get_next_pending_task (queue ex_world) = Some ex_task"
  by (simp add: ex_world_def get_next_pending_task_def ex_task_def)

lemma ex_env_no_fault: "no_fault ex_env"
  by (simp add: no_fault_def ex_env_def)

lemma ex_env_attempt_fails: "attempt_fails ex_env"
  by (simp add: attempt_fails_def ex_env_def)

lemma ex_fingerprint:
  "fingerprint_of (file_size ex_task) (file_mtime ex_task) = ''1000000000_1700000000''"
  by (simp add: fingerprint_of_def str_int_def digit_char_def ex_task_def)

text \<open>
  The scenario of the specification: the upload of \<open>movie.mkv\<close> times out on three
  consecutive passes.
\<close>

theorem failed_transfer_retry_witness:
  "rows_of 1 (queue (snd (process_one_task ex_env ex_world))) =
     [ex_task\<lparr>retry_count := 1, updated_at := 500\<rparr>] \<and>
   rows_of 1 (queue (run_passes [ex_env, ex_env] ex_world)) =
     [ex_task\<lparr>retry_count := 2, updated_at := 500\<rparr>] \<and>
   rows_of 1 (queue (run_passes [ex_env, ex_env, ex_env] ex_world)) =
     [ex_task\<lparr>status := ''failed'', error_message := Some ''timeout'', retry_count := 3,
              updated_at := 500\<rparr>]"
proof -
  have nb: "\<not> is_processing ex_world" by (simp add: ex_world_def)
  have d: "distinct (map task_id (queue ex_world))" by (simp add: ex_world_def)
  have ex: "file_path ex_task \<in> files ex_world" by (simp add: ex_world_def ex_task_def)
  have nu: "\<not> is_uploaded (history ex_world)
      (fingerprint_of (file_size ex_task) (file_mtime ex_task)) (file_size ex_task)"
    by (simp add: is_uploaded_def ex_world_def)
  note th = failed_transfer_retry [OF nb d ex_world_select ex nu ex_env_no_fault,
      of ex_env ex_env]
  have fl: "\<not> fst (fst (execute_task ex_env ex_task ex_world))"
    by (simp add: execute_task_def ex_env_def ex_task_def)
  have msg: "\<And>u. snd (fst (execute_task ex_env (ex_task\<lparr>status := ''pending'',
                retry_count := 2, updated_at := u\<rparr>) ex_world)) = ''timeout''"
    by (simp add: execute_task_def ex_env_def ex_task_def)
  have msg2: "\<And>u. snd (fst (execute_task ex_env (ex_task\<lparr>retry_count := 2,
                updated_at := u\<rparr>) ex_world)) = ''timeout''"
    by (simp add: execute_task_def ex_env_def ex_task_def)
  have tid: "task_id ex_task = 1" and rc: "retry_count ex_task = 0"
    and st: "status ex_task = ''pending''"
    by (simp_all add: ex_task_def)
  have now: "\<And>p. now ex_env p = 500" by (simp add: ex_env_def)
  have pend: "\<And>n u. ex_task\<lparr>status := ''pending'', retry_count := n, updated_at := u\<rparr>
      = ex_task\<lparr>retry_count := n, updated_at := u\<rparr>"
    by (simp add: ex_task_def)
  have one: "rows_of 1 (queue (snd (process_one_task ex_env ex_world))) =
     [ex_task\<lparr>retry_count := 1, updated_at := 500\<rparr>]"
    using th [THEN conjunct1] fl by (simp add: tid rc now pend)
  have all3: "retry_count ex_task = 0 \<and> no_fault ex_env \<and> no_fault ex_env \<and>
     attempt_fails ex_env \<and> attempt_fails ex_env \<and> attempt_fails ex_env"
    using rc ex_env_no_fault ex_env_attempt_fails by simp
  have three: "rows_of 1 (queue (run_passes [ex_env, ex_env] ex_world)) =
       [ex_task\<lparr>retry_count := 2, updated_at := 500\<rparr>] \<and>
     rows_of 1 (queue (run_passes [ex_env, ex_env, ex_env] ex_world)) =
       [ex_task\<lparr>status := ''failed'', error_message := Some ''timeout'', retry_count := 3,
              updated_at := 500\<rparr>]"
    using th [THEN conjunct2, rule_format, OF all3]
    by (simp only: tid now msg msg2 pend)
  from one three show ?thesis by simp
qed

section \<open>The shortcuts of a pass\<close>


lemma selected_row_image:
  assumes sel: "get_next_pending_task db = Some t"
  shows "h t \<in> set (map (\<lambda>r. if task_id r = task_id t then h r else r) db)"
proof -
  have "t \<in> set db" using sel by (rule get_next_pending_task_Some)
  then have "(\<lambda>r. if task_id r = task_id t then h r else r) t
      \<in> set (map (\<lambda>r. if task_id r = task_id t then h r else r) db)"
    by (simp only: set_map image_eqI)
  then show ?thesis by simp
qed

text \<open>
  C5 (source file missing), as the code has it. A task is selected, nothing raises, and the
  file of the task does not exist. Then the pass returns \<open>True\<close>; every row with the id of
  the task is failed with the fixed message \<open>msg_file_missing\<close> and the retry count the
  task had; the row of the task itself differs from the task in status, message and
  \<open>updated_at\<close> only; and the history, the files, the flag and the list of transfers are
  as before: no transfer is started.
\<close>

theorem source_missing_fails:
  assumes nb: "\<not> is_processing s" and nf: "no_fault e"
    and sel: "get_next_pending_task (queue s) = Some t"
    and miss: "file_path t \<notin> files s"
  shows "process_one_task e s =
      (True, s\<lparr>queue := map (\<lambda>r. if task_id r = task_id t
                   then r\<lparr>status := ''failed'', error_message := Some msg_file_missing,
                          retry_count := retry_count t, updated_at := now e MarkMissing\<rparr>
                   else r) (queue s)\<rparr>) \<and>
    t\<lparr>status := ''failed'', error_message := Some msg_file_missing,
      updated_at := now e MarkMissing\<rparr> \<in> set (queue (snd (process_one_task e s))) \<and>
    transfers (snd (process_one_task e s)) = transfers s"
proof -
  have eq: "process_one_task e s =
      (True, s\<lparr>queue := map (\<lambda>r. if task_id r = task_id t
                   then r\<lparr>status := ''failed'', error_message := Some msg_file_missing,
                          retry_count := retry_count t, updated_at := now e MarkMissing\<rparr>
                   else r) (queue s)\<rparr>)"
    using process_missing [OF nb nf sel miss] by (simp only: failed_after_processing)
  have "(\<lambda>r. r\<lparr>status := ''failed'', error_message := Some msg_file_missing,
                          retry_count := retry_count t, updated_at := now e MarkMissing\<rparr>) t
       \<in> set (map (\<lambda>r. if task_id r = task_id t
                   then r\<lparr>status := ''failed'', error_message := Some msg_file_missing,
                          retry_count := retry_count t, updated_at := now e MarkMissing\<rparr>
                   else r) (queue s))"
    by (rule selected_row_image [OF sel])
  then have row: "t\<lparr>status := ''failed'', error_message := Some msg_file_missing,
      updated_at := now e MarkMissing\<rparr> \<in> set (queue (snd (process_one_task e s)))"
    by (simp add: eq)
  from eq row show ?thesis by simp
qed

text \<open>
  C2 (history re-check), as the code has it. A task is selected, nothing raises, the file
  of the task exists, and the history holds a row with the fingerprint and the size of the
  task. Then the pass returns \<open>True\<close>; every row with the id of the task is completed;
  the row of the task itself differs from the task in status and \<open>updated_at\<close> only; and
  no transfer is started.
\<close>

theorem historized_completes:
  assumes nb: "\<not> is_processing s" and nf: "no_fault e"
    and sel: "get_next_pending_task (queue s) = Some t"
    and ex: "file_path t \<in> files s"
    and up: "is_uploaded (history s) (fingerprint_of (file_size t) (file_mtime t)) (file_size t)"
  shows "process_one_task e s =
      (True, s\<lparr>queue := map (\<lambda>r. if task_id r = task_id t
                   then r\<lparr>status := ''completed'', updated_at := now e MarkDuplicate\<rparr>
                   else r) (queue s)\<rparr>) \<and>
    t\<lparr>status := ''completed'', updated_at := now e MarkDuplicate\<rparr>
      \<in> set (queue (snd (process_one_task e s))) \<and>
    transfers (snd (process_one_task e s)) = transfers s"
proof -
  have eq: "process_one_task e s =
      (True, s\<lparr>queue := map (\<lambda>r. if task_id r = task_id t
                   then r\<lparr>status := ''completed'', updated_at := now e MarkDuplicate\<rparr>
                   else r) (queue s)\<rparr>)"
    using process_duplicate [OF nb nf sel ex up] by (simp only: completed_after_processing)
  have "(\<lambda>r. r\<lparr>status := ''completed'', updated_at := now e MarkDuplicate\<rparr>) t
       \<in> set (map (\<lambda>r. if task_id r = task_id t
                   then r\<lparr>status := ''completed'', updated_at := now e MarkDuplicate\<rparr>
                   else r) (queue s))"
    by (rule selected_row_image [OF sel])
  then have row: "t\<lparr>status := ''completed'', updated_at := now e MarkDuplicate\<rparr>
      \<in> set (queue (snd (process_one_task e s)))"
    by (simp add: eq)
  from eq row show ?thesis by simp
qed


lemma ex_hist_uploaded:
  "is_uploaded [ex_hist] (fingerprint_of (file_size ex_task) (file_mtime ex_task))
     (file_size ex_task)"
  by (simp add: ex_fingerprint) (simp add: is_uploaded_def ex_hist_def ex_task_def)

text \<open>The file of the queued task has vanished: the task is failed at once, count 0.\<close>

theorem source_missing_fails_witness:
  "process_one_task ex_env (ex_world\<lparr>files := {}\<rparr>) =
     (True, ex_world\<lparr>files := {},
        queue := [ex_task\<lparr>status := ''failed'', error_message := Some msg_file_missing,
                          updated_at := 500\<rparr>]\<rparr>) \<and>
   retry_count (ex_task\<lparr>status := ''failed'', error_message := Some msg_file_missing,
                          updated_at := 500\<rparr>) = 0"
proof -
  have nb: "\<not> is_processing (ex_world\<lparr>files := {}\<rparr>)" by (simp add: ex_world_def)
  have sel: "get_next_pending_task (queue (ex_world\<lparr>files := {}\<rparr>)) = Some ex_task"
    using ex_world_select by simp
  have miss: "file_path ex_task \<notin> files (ex_world\<lparr>files := {}\<rparr>)" by simp
  have "process_one_task ex_env (ex_world\<lparr>files := {}\<rparr>) =
     (True, ex_world\<lparr>files := {},
        queue := [ex_task\<lparr>status := ''failed'', error_message := Some msg_file_missing,
                          updated_at := 500\<rparr>]\<rparr>)"
    using source_missing_fails [OF nb ex_env_no_fault sel miss, THEN conjunct1]
    by (simp add: ex_world_def ex_env_def)
  then show ?thesis by (simp add: ex_task_def)
qed

text \<open>
  The message stored for a missing source file is the text of \<open>msg_file_missing\<close>, not
  the text \<open>source missing\<close>.
\<close>

theorem source_missing_message_counterexample:
  "get_next_pending_task (queue (ex_world\<lparr>files := {}\<rparr>)) = Some ex_task \<and>
   file_path ex_task \<notin> files (ex_world\<lparr>files := {}\<rparr>) \<and>
   map status (queue (snd (process_one_task ex_env (ex_world\<lparr>files := {}\<rparr>)))) = [''failed''] \<and>
   map error_message (queue (snd (process_one_task ex_env (ex_world\<lparr>files := {}\<rparr>))))
     \<noteq> [Some ''source missing'']"
proof -
  have nb: "\<not> is_processing (ex_world\<lparr>files := {}\<rparr>)" by (simp add: ex_world_def)
  have sel: "get_next_pending_task (queue (ex_world\<lparr>files := {}\<rparr>)) = Some ex_task"
    using ex_world_select by simp
  have miss: "file_path ex_task \<notin> files (ex_world\<lparr>files := {}\<rparr>)" by simp
  have q: "queue (snd (process_one_task ex_env (ex_world\<lparr>files := {}\<rparr>))) =
      [ex_task\<lparr>status := ''failed'', error_message := Some msg_file_missing,
               retry_count := 0, updated_at := 500\<rparr>]"
    using process_missing [OF nb ex_env_no_fault sel miss]
    by (simp add: failed_after_processing ex_world_def ex_env_def) (simp add: ex_task_def)
  have ne: "msg_file_missing \<noteq> ''source missing''"
    by (simp add: msg_file_missing_def)
  from sel miss q ne show ?thesis by simp
qed

text \<open>The fingerprint of the queued task is in the history and its file exists.\<close>

theorem historized_completes_witness:
  "process_one_task ex_env_ok (ex_world\<lparr>history := [ex_hist]\<rparr>) =
     (True, ex_world\<lparr>history := [ex_hist],
        queue := [ex_task\<lparr>status := ''completed'', updated_at := 500\<rparr>]\<rparr>) \<and>
   transfers (snd (process_one_task ex_env_ok (ex_world\<lparr>history := [ex_hist]\<rparr>))) = []"
proof -
  let ?w = "ex_world\<lparr>history := [ex_hist]\<rparr>"
  have nb: "\<not> is_processing ?w" by (simp add: ex_world_def)
  have nf: "no_fault ex_env_ok" by (simp add: no_fault_def ex_env_ok_def ex_env_def)
  have sel: "get_next_pending_task (queue ?w) = Some ex_task"
    using ex_world_select by simp
  have ex: "file_path ex_task \<in> files ?w" by (simp add: ex_world_def ex_task_def)
  have up: "is_uploaded (history ?w) (fingerprint_of (file_size ex_task) (file_mtime ex_task))
     (file_size ex_task)"
    using ex_hist_uploaded by simp
  note th = historized_completes [OF nb nf sel ex up]
  have a: "process_one_task ex_env_ok ?w =
     (True, ex_world\<lparr>history := [ex_hist],
        queue := [ex_task\<lparr>status := ''completed'', updated_at := 500\<rparr>]\<rparr>)"
    using th [THEN conjunct1]
    by (simp add: ex_world_def ex_env_ok_def ex_env_def)
  have b: "transfers (snd (process_one_task ex_env_ok ?w)) = []"
    using th [THEN conjunct2, THEN conjunct2] by (simp add: ex_world_def)
  from a b show ?thesis by simp
qed

text \<open>
  The fingerprint of the queued task is in the history and its file is missing: the task
  is failed, not completed.
\<close>

theorem historized_missing_counterexample:
  "get_next_pending_task (queue (ex_world\<lparr>files := {}, history := [ex_hist]\<rparr>))
     = Some ex_task \<and>
   is_uploaded (history (ex_world\<lparr>files := {}, history := [ex_hist]\<rparr>))
     (fingerprint_of (file_size ex_task) (file_mtime ex_task)) (file_size ex_task) \<and>
   map status (queue (snd (process_one_task ex_env_ok
     (ex_world\<lparr>files := {}, history := [ex_hist]\<rparr>)))) = [''failed'']"
proof -
  let ?w = "ex_world\<lparr>files := {}, history := [ex_hist]\<rparr>"
  have nb: "\<not> is_processing ?w" by (simp add: ex_world_def)
  have nf: "no_fault ex_env_ok" by (simp add: no_fault_def ex_env_ok_def ex_env_def)
  have sel: "get_next_pending_task (queue ?w) = Some ex_task"
    using ex_world_select by simp
  have miss: "file_path ex_task \<notin> files ?w" by simp
  have up: "is_uploaded (history ?w) (fingerprint_of (file_size ex_task) (file_mtime ex_task))
     (file_size ex_task)"
    using ex_hist_uploaded by simp
  have q: "map status (queue (snd (process_one_task ex_env_ok ?w))) = [''failed'']"
    using process_missing [OF nb nf sel miss]
    by (simp add: failed_after_processing ex_world_def)
  from sel up q show ?thesis by simp
qed


lemma process_one_task_stores:
  "history (snd (process_one_task e s)) =
     (if is_processing s then history s
      else history (snd (process_body e (s\<lparr>is_processing := True\<rparr>))))"
  "files (snd (process_one_task e s)) =
     (if is_processing s then files s
      else files (snd (process_body e (s\<lparr>is_processing := True\<rparr>))))"
  "queue (snd (process_one_task e s)) =
     (if is_processing s then queue s
      else queue (snd (process_body e (s\<lparr>is_processing := True\<rparr>))))"
  "transfers (snd (process_one_task e s)) =
     (if is_processing s then transfers s
      else transfers (snd (process_body e (s\<lparr>is_processing := True\<rparr>))))"
  by (simp_all add: process_one_task_def split_beta split: sum.split)

lemma process_one_task_changes:
  assumes "history (snd (process_one_task e s)) \<noteq> history s \<or>
           files (snd (process_one_task e s)) \<noteq> files s"
  shows "\<exists>t. get_next_pending_task (queue s) = Some t \<and> file_path t \<in> files s \<and>
     \<not> is_uploaded (history s) (fingerprint_of (file_size t) (file_mtime t)) (file_size t) \<and>
     fst (fst (execute_task e t s))"
proof -
  let ?s0 = "s\<lparr>is_processing := True\<rparr>"
  from assms have "history (snd (process_body e ?s0)) \<noteq> history ?s0 \<or>
           files (snd (process_body e ?s0)) \<noteq> files ?s0"
    by (simp add: process_one_task_stores split: if_splits)
  then obtain t where t: "get_next_pending_task (queue ?s0) = Some t"
      "file_path t \<in> files ?s0"
      "\<not> is_uploaded (history ?s0) (fingerprint_of (file_size t) (file_mtime t)) (file_size t)"
      "fst (fst (execute_task e t ?s0))"
    using process_body_changes [of e ?s0] by blast
  from t(4) have "fst (fst (execute_task e t s))"
    using execute_task_outcome [of e t ?s0 s] by simp
  with t(1-3) show ?thesis by simp
qed

text \<open>
  C9 (what the history shortcut writes). When the pass completes the selected task because
  its fingerprint is in the history, the history, the files and the list of transfers are
  as before, also for a task whose \<open>delete_source\<close> is set, and each row of the queue is
  as before except that a row with the id of the task has the status completed and a new
  \<open>updated_at\<close>. In any pass whatever: if the history or the files have changed, then a
  task was selected, its file existed, its fingerprint was not in the history, and the
  transfer succeeded.
\<close>

theorem shortcut_writes_status_only:
  "(\<not> is_processing s \<and> no_fault e \<and> get_next_pending_task (queue s) = Some t \<and>
    file_path t \<in> files s \<and>
    is_uploaded (history s) (fingerprint_of (file_size t) (file_mtime t)) (file_size t) \<longrightarrow>
      history (snd (process_one_task e s)) = history s \<and>
      files (snd (process_one_task e s)) = files s \<and>
      transfers (snd (process_one_task e s)) = transfers s \<and>
      length (queue (snd (process_one_task e s))) = length (queue s) \<and>
      (\<forall>i < length (queue s).
         queue (snd (process_one_task e s)) ! i =
           (if task_id (queue s ! i) = task_id t
            then (queue s ! i)\<lparr>status := ''completed'', updated_at := now e MarkDuplicate\<rparr>
            else queue s ! i))) \<and>
   (history (snd (process_one_task e s)) \<noteq> history s \<or>
    files (snd (process_one_task e s)) \<noteq> files s \<longrightarrow>
      (\<exists>t. get_next_pending_task (queue s) = Some t \<and> file_path t \<in> files s \<and>
         \<not> is_uploaded (history s) (fingerprint_of (file_size t) (file_mtime t))
             (file_size t) \<and>
         fst (fst (execute_task e t s))))"
proof (intro conjI impI)
  assume a: "\<not> is_processing s \<and> no_fault e \<and> get_next_pending_task (queue s) = Some t \<and>
    file_path t \<in> files s \<and>
    is_uploaded (history s) (fingerprint_of (file_size t) (file_mtime t)) (file_size t)"
  then have nb: "\<not> is_processing s" and nf: "no_fault e"
    and sel: "get_next_pending_task (queue s) = Some t" and ex: "file_path t \<in> files s"
    and up: "is_uploaded (history s) (fingerprint_of (file_size t) (file_mtime t))
               (file_size t)"
    by simp_all
  have eq: "process_one_task e s =
    (True, s\<lparr>queue := map (\<lambda>r. if task_id r = task_id t
                   then r\<lparr>status := ''completed'', updated_at := now e MarkDuplicate\<rparr>
                   else r) (queue s)\<rparr>)"
    using process_duplicate [OF nb nf sel ex up] by (simp only: completed_after_processing)
  show "history (snd (process_one_task e s)) = history s" by (simp add: eq)
  show "files (snd (process_one_task e s)) = files s" by (simp add: eq)
  show "transfers (snd (process_one_task e s)) = transfers s" by (simp add: eq)
  show "length (queue (snd (process_one_task e s))) = length (queue s)" by (simp add: eq)
  show "\<forall>i < length (queue s).
         queue (snd (process_one_task e s)) ! i =
           (if task_id (queue s ! i) = task_id t
            then (queue s ! i)\<lparr>status := ''completed'', updated_at := now e MarkDuplicate\<rparr>
            else queue s ! i)"
    by (simp add: eq)
next
  assume "history (snd (process_one_task e s)) \<noteq> history s \<or>
    files (snd (process_one_task e s)) \<noteq> files s"
  then show "\<exists>t. get_next_pending_task (queue s) = Some t \<and> file_path t \<in> files s \<and>
         \<not> is_uploaded (history s) (fingerprint_of (file_size t) (file_mtime t))
             (file_size t) \<and>
         fst (fst (execute_task e t s))"
    by (rule process_one_task_changes)
qed

text \<open>
  The queued task asks for its source to be deleted; with its fingerprint in the history
  the file stays and the history gets no new row.
\<close>

theorem shortcut_writes_status_only_witness:
  "delete_source ex_task \<and>
   history (snd (process_one_task ex_env_ok (ex_world\<lparr>history := [ex_hist]\<rparr>))) = [ex_hist] \<and>
   files (snd (process_one_task ex_env_ok (ex_world\<lparr>history := [ex_hist]\<rparr>)))
     = {''/watch/movie.mkv''} \<and>
   queue (snd (process_one_task ex_env_ok (ex_world\<lparr>history := [ex_hist]\<rparr>))) ! 0
     = ex_task\<lparr>status := ''completed'', updated_at := 500\<rparr>"
proof -
  let ?w = "ex_world\<lparr>history := [ex_hist]\<rparr>"
  have pre: "\<not> is_processing ?w \<and> no_fault ex_env_ok \<and>
      get_next_pending_task (queue ?w) = Some ex_task \<and> file_path ex_task \<in> files ?w \<and>
      is_uploaded (history ?w) (fingerprint_of (file_size ex_task) (file_mtime ex_task))
        (file_size ex_task)"
    using ex_world_select ex_hist_uploaded
    by (simp add: no_fault_def ex_env_ok_def ex_env_def)
       (simp add: ex_world_def ex_task_def)
  note th = shortcut_writes_status_only [of ?w ex_env_ok ex_task, THEN conjunct1,
      rule_format, OF pre]
  have del: "delete_source ex_task" by (simp add: ex_task_def)
  have h: "history (snd (process_one_task ex_env_ok ?w)) = [ex_hist]"
    using th [THEN conjunct1] by simp
  have f: "files (snd (process_one_task ex_env_ok ?w)) = {''/watch/movie.mkv''}"
    using th [THEN conjunct2, THEN conjunct1] by (simp add: ex_world_def)
  have "0 < length (queue ?w)" by (simp add: ex_world_def)
  with th [THEN conjunct2, THEN conjunct2, THEN conjunct2, THEN conjunct2]
  have "queue (snd (process_one_task ex_env_ok ?w)) ! 0 =
           (if task_id (queue ?w ! 0) = task_id ex_task
            then (queue ?w ! 0)\<lparr>status := ''completed'',
                   updated_at := now ex_env_ok MarkDuplicate\<rparr>
            else queue ?w ! 0)"
    by (elim allE [of _ 0] impE) assumption+
  then have q: "queue (snd (process_one_task ex_env_ok ?w)) ! 0
     = ex_task\<lparr>status := ''completed'', updated_at := 500\<rparr>"
    by (simp add: ex_world_def ex_env_ok_def ex_env_def)
  from del h f q show ?thesis by (intro conjI)
qed

section \<open>The busy flag and the result of a pass\<close>


lemma run_transfer_transfers:
  "transfers (snd (run_transfer e t s)) = transfers s \<or>
   transfers (snd (run_transfer e t s)) = transfers s @ [t]"
  by (simp add: run_transfer_def Let_def split_beta execute_task_def delete_source_file_def)

lemma process_body_transfers:
  "transfers (snd (process_body e s)) = transfers s \<or>
   (\<exists>t. get_next_pending_task (queue s) = Some t \<and>
        transfers (snd (process_body e s)) = transfers s @ [t])"
proof (cases "get_next_pending_task (queue s)")
  case None
  then show ?thesis by (simp add: process_body_def)
next
  case (Some t)
  let ?s1 = "s\<lparr>queue := mark_as_processing (queue s) (task_id t) (now e MarkProcessing)\<rparr>"
  have "transfers (snd (run_transfer e t ?s1)) = transfers s \<or>
        transfers (snd (run_transfer e t ?s1)) = transfers s @ [t]"
    using run_transfer_transfers [of e t ?s1] by simp
  with Some show ?thesis by (auto simp add: process_body_def Let_def)
qed





text \<open>
  A call with no other call in between. A call that finds the flag set returns
  \<open>False\<close> and leaves the whole
  state, the queue included, as it is. A call that finds it clear runs the body with the
  flag set (the body never touches the flag, so it is still set when the body ends), takes
  the queue from the body, and returns with the flag clear, whether the body returned or
  raised. One call hands at most one task to a transfer, the task it selected.
\<close>

lemma sequential_call_flag:
  "(is_processing s \<longrightarrow> process_one_task e s = (False, s)) \<and>
   (\<not> is_processing s \<longrightarrow>
      is_processing (snd (process_body e (s\<lparr>is_processing := True\<rparr>))) \<and>
      queue (snd (process_one_task e s))
        = queue (snd (process_body e (s\<lparr>is_processing := True\<rparr>))) \<and>
      \<not> is_processing (snd (process_one_task e s))) \<and>
   (transfers (snd (process_one_task e s)) = transfers s \<or>
    (\<exists>t. get_next_pending_task (queue s) = Some t \<and>
         transfers (snd (process_one_task e s)) = transfers s @ [t]))"
proof (intro conjI impI)
  assume "is_processing s"
  then show "process_one_task e s = (False, s)" by (simp add: process_one_task_def)
next
  assume "\<not> is_processing s"
  show "is_processing (snd (process_body e (s\<lparr>is_processing := True\<rparr>)))"
    by (simp add: process_body_flag)
next
  assume "\<not> is_processing s"
  then show "queue (snd (process_one_task e s))
        = queue (snd (process_body e (s\<lparr>is_processing := True\<rparr>)))"
    by (simp add: process_one_task_stores)
next
  assume "\<not> is_processing s"
  then show "\<not> is_processing (snd (process_one_task e s))"
    by (simp add: process_one_task_def split_beta split: sum.split)
next
  show "transfers (snd (process_one_task e s)) = transfers s \<or>
    (\<exists>t. get_next_pending_task (queue s) = Some t \<and>
         transfers (snd (process_one_task e s)) = transfers s @ [t])"
    using process_body_transfers [of e "s\<lparr>is_processing := True\<rparr>"]
    by (simp add: process_one_task_stores)
qed




section \<open>Calls that overlap\<close>

lemma process_body_prepare:
  "process_body e s =
     (case prepare e s of Inl r \<Rightarrow> r | Inr (t, s1) \<Rightarrow> run_transfer e t s1)"
  by (simp add: process_body_def prepare_def Let_def split: option.split)

lemma run_transfer_settle:
  "run_transfer e t s = (case execute_task e t s of (res, s2) \<Rightarrow> settle e t res s2)"
  by (simp add: run_transfer_def settle_def Let_def split_beta)

text \<open>
  A call that takes all its turns with no other call in between does what
  \<open>process_one_task\<close> does.
\<close>

lemma single_call:
  "run_schedule [0, 0, 0, 0, 0, 0] (s, [(e, AtCheck)]) =
     (snd (process_one_task e s), [(e, Returned (fst (process_one_task e s)))])"
proof (cases "is_processing s")
  case True
  then show ?thesis by (simp add: turn_def process_one_task_def)
next
  case False
  let ?s0 = "s\<lparr>is_processing := True\<rparr>"
  show ?thesis
  proof (cases "prepare e ?s0")
    case (Inl a)
    obtain r s' where a: "a = (r, s')" by (cases a)
    have b: "process_body e ?s0 = (r, s')"
      by (simp add: process_body_prepare Inl a)
    show ?thesis
      using False by (cases r) (simp_all add: turn_def process_one_task_def b Inl a)
  next
    case (Inr c)
    obtain t s1 where c: "c = (t, s1)" by (cases c)
    obtain res s2 where x: "execute_task e t s1 = (res, s2)" by (cases "execute_task e t s1")
    obtain r s3 where y: "settle e t res s2 = (r, s3)" by (cases "settle e t res s2")
    have b: "process_body e ?s0 = (r, s3)"
      by (simp add: process_body_prepare run_transfer_settle Inr c x y)
    show ?thesis
      using False by (cases r) (simp_all add: turn_def process_one_task_def b Inr c x y)
  qed
qed

subsection \<open>Calls that do not overlap at the entry\<close>

text \<open>
  \<open>entry_turn\<close> lets a call run its test of the flag and the assignment that follows in
  one turn; everything after the assignment is interleaved freely.
\<close>

lemma prepare_flag:
  "prepare e s = Inl (r, s') \<Longrightarrow> is_processing s' = is_processing s"
  "prepare e s = Inr (t, s') \<Longrightarrow> is_processing s' = is_processing s"
  by (auto simp add: prepare_def Let_def split: if_splits option.splits)

lemma settle_flag: "is_processing (snd (settle e t res s)) = is_processing s"
  by (simp add: settle_def Let_def delete_source_file_def)

lemma filter_update_count:
  "i < length xs \<Longrightarrow>
     length (filter P (xs[i := y])) + (if P (xs ! i) then 1 else 0)
       = length (filter P xs) + (if P y then 1 else 0)"
proof (induction xs arbitrary: i)
  case Nil
  then show ?case by simp
next
  case (Cons x xs)
  show ?case
  proof (cases i)
    case 0
    then show ?thesis by simp
  next
    case (Suc j)
    with Cons.prems have "j < length xs" by simp
    from Cons.IH [OF this] Suc show ?thesis by simp
  qed
qed

lemma advance_inside:
  assumes "p \<noteq> AtCheck" and "p \<noteq> AtClaim" and "advance e p s = (p', s')"
    and "inside p \<longrightarrow> is_processing s"
  shows "p' \<noteq> AtClaim"
    and "(if inside p' then 1 else 0) + (if is_processing s then 1 else 0)
           = (if inside p then (1::nat) else 0) + (if is_processing s' then 1 else 0)"
proof -
  have "p' \<noteq> AtClaim \<and>
     (if inside p' then 1 else 0) + (if is_processing s then 1 else 0)
           = (if inside p then (1::nat) else 0) + (if is_processing s' then 1 else 0)"
  proof (cases p)
    case AtCheck
    with assms show ?thesis by simp
  next
    case AtClaim
    with assms show ?thesis by simp
  next
    case InTry
    show ?thesis
    proof (cases "prepare e s")
      case (Inl a)
      obtain r s1 where a: "a = (r, s1)" by (cases a)
      from prepare_flag(1) [of e s r s1] Inl a have "is_processing s1 = is_processing s"
        by simp
      with assms InTry Inl a show ?thesis by auto
    next
      case (Inr b)
      obtain t s1 where b: "b = (t, s1)" by (cases b)
      from prepare_flag(2) [of e s t s1] Inr b have "is_processing s1 = is_processing s"
        by simp
      with assms InTry Inr b show ?thesis by auto
    qed
  next
    case (AtTransfer t)
    obtain res s1 where x: "execute_task e t s = (res, s1)" by (cases "execute_task e t s")
    have "is_processing s1 = is_processing s"
      using execute_task_frame(1) [of e t s] x by simp
    with assms AtTransfer x show ?thesis by auto
  next
    case (AtSettle t res)
    obtain r s1 where x: "settle e t res s = (r, s1)" by (cases "settle e t res s")
    have "is_processing s1 = is_processing s"
      using settle_flag [of e t res s] x by simp
    with assms AtSettle x show ?thesis by auto
  next
    case (AtFinally r)
    with assms show ?thesis by (cases r) auto
  next
    case (Returned b)
    with assms show ?thesis by auto
  qed
  then show "p' \<noteq> AtClaim"
    and "(if inside p' then 1 else 0) + (if is_processing s then 1 else 0)
           = (if inside p then (1::nat) else 0) + (if is_processing s' then 1 else 0)"
    by simp_all
qed

lemma list_all_update:
  "list_all P xs \<Longrightarrow> P y \<Longrightarrow> list_all P (xs[i := y])"
  by (induction xs arbitrary: i) (auto split: nat.split)

lemma filter_nth_count:
  "i < length xs \<Longrightarrow> P (xs ! i) \<Longrightarrow> 0 < length (filter P xs)"
  by (metis filter_empty_conv length_greater_0_conv nth_mem)

lemma turn_inv:
  assumes inv: "flag_inv (s, calls)" and i: "i < length calls"
    and p: "calls ! i = (e, p)" and nc: "p \<noteq> AtCheck"
  shows "flag_inv (turn i (s, calls))"
proof -
  obtain p' s' where adv: "advance e p s = (p', s')" by (cases "advance e p s")
  have na: "p \<noteq> AtClaim"
    using inv i p by (auto simp add: flag_inv_def list_all_length)
  have cnt: "length (filter (\<lambda>x. inside (snd x)) calls) = (if is_processing s then 1 else 0)"
    using inv by (simp add: flag_inv_def)
  have ins: "inside p \<longrightarrow> is_processing s"
  proof
    assume "inside p"
    then have "0 < length (filter (\<lambda>x. inside (snd x)) calls)"
      using filter_nth_count [of i calls "\<lambda>x. inside (snd x)"] i p by simp
    with cnt show "is_processing s" by (simp split: if_splits)
  qed
  note a = advance_inside [OF nc na adv ins]
  have t: "turn i (s, calls) = (s', calls[i := (e, p')])"
    using i p adv by (simp add: turn_def)
  have upd: "length (filter (\<lambda>x. inside (snd x)) (calls[i := (e, p')]))
        + (if inside p then 1 else 0)
      = length (filter (\<lambda>x. inside (snd x)) calls) + (if inside p' then 1 else 0)"
    using filter_update_count [OF i, of "\<lambda>x. inside (snd x)" "(e, p')"] p by simp
  have "length (filter (\<lambda>x. inside (snd x)) (calls[i := (e, p')]))
      = (if is_processing s' then 1 else 0)"
    using upd a(2) cnt by (simp split: if_splits)
  moreover have "list_all (\<lambda>x. snd x \<noteq> AtClaim) (calls[i := (e, p')])"
    using inv a(1) by (simp add: flag_inv_def list_all_update)
  ultimately show ?thesis by (simp add: t flag_inv_def)
qed

lemma entry_turn_inv:
  assumes inv: "flag_inv c"
  shows "flag_inv (entry_turn i c)"
proof -
  obtain s calls where c: "c = (s, calls)" by (cases c)
  show ?thesis
  proof (cases "i < length calls")
    case False
    with inv show ?thesis by (simp add: entry_turn_def turn_def c)
  next
    case True
    obtain e p where p: "calls ! i = (e, p)" by (cases "calls ! i")
    have cnt: "length (filter (\<lambda>x. inside (snd x)) calls) = (if is_processing s then 1 else 0)"
      and nac: "list_all (\<lambda>x. snd x \<noteq> AtClaim) calls"
      using inv by (simp_all add: flag_inv_def c)
    show ?thesis
    proof (cases "p = AtCheck")
      case False
      with True p have "entry_turn i c = turn i (s, calls)"
        by (simp add: entry_turn_def c)
      with turn_inv [OF inv [unfolded c] True p False] show ?thesis by simp
    next
      case AtCheck: True
      show ?thesis
      proof (cases "is_processing s")
        case busy: True
        have e: "entry_turn i c = (s, calls[i := (e, Returned False)])"
          using True p AtCheck busy by (simp add: entry_turn_def turn_def c)
        have "length (filter (\<lambda>x. inside (snd x)) (calls[i := (e, Returned False)]))
            = length (filter (\<lambda>x. inside (snd x)) calls)"
          using filter_update_count [OF True, of "\<lambda>x. inside (snd x)" "(e, Returned False)"]
            p AtCheck by simp
        with cnt nac show ?thesis by (simp add: e flag_inv_def list_all_update)
      next
        case free: False
        have e: "entry_turn i c = (s\<lparr>is_processing := True\<rparr>, calls[i := (e, InTry)])"
          using True p AtCheck free by (simp add: entry_turn_def turn_def c)
        have "length (filter (\<lambda>x. inside (snd x)) (calls[i := (e, InTry)]))
            = length (filter (\<lambda>x. inside (snd x)) calls) + 1"
          using filter_update_count [OF True, of "\<lambda>x. inside (snd x)" "(e, InTry)"]
            p AtCheck by simp
        with cnt nac free show ?thesis by (simp add: e flag_inv_def list_all_update)
      qed
    qed
  qed
qed

lemma run_entry_schedule_inv:
  "flag_inv c \<Longrightarrow> flag_inv (run_entry_schedule sched c)"
  by (induction sched arbitrary: c) (simp_all add: entry_turn_inv)

lemma in_flight_inside:
  "in_flight calls \<le> length (filter (\<lambda>x. inside (snd x)) calls)"
proof -
  have "\<And>p. holds_task p \<Longrightarrow> inside p"
    by (case_tac p) simp_all
  then have "filter (\<lambda>c. holds_task (snd c)) calls
      = filter (\<lambda>c. holds_task (snd c)) (filter (\<lambda>x. inside (snd x)) calls)"
    by (induction calls) auto
  then show ?thesis
    unfolding in_flight_def by (metis length_filter_le)
qed

text \<open>
  Where no call takes a turn between another call's test of the flag and its assignment,
  the flag does what it is meant to do: starting with the flag clear and all calls at
  their test, at most one task is in flight at any moment, whatever the schedule, and the
  flag is set exactly while a call is inside.
\<close>

lemma no_overlap_single_flight:
  assumes "\<not> is_processing s" and "list_all (\<lambda>x. snd x = AtCheck) calls"
  shows "in_flight (snd (run_entry_schedule sched (s, calls))) \<le> 1"
    and "is_processing (fst (run_entry_schedule sched (s, calls))) \<longleftrightarrow>
         (\<exists>x \<in> set (snd (run_entry_schedule sched (s, calls))). inside (snd x))"
proof -
  have "filter (\<lambda>x. inside (snd x)) calls = []"
    using assms(2) by (induction calls) auto
  moreover have "list_all (\<lambda>x. snd x \<noteq> AtClaim) calls"
    using assms(2) by (induction calls) auto
  ultimately have "flag_inv (s, calls)"
    using assms(1) by (simp add: flag_inv_def)
  then have inv: "flag_inv (run_entry_schedule sched (s, calls))"
    by (rule run_entry_schedule_inv)
  let ?c = "run_entry_schedule sched (s, calls)"
  have cnt: "length (filter (\<lambda>x. inside (snd x)) (snd ?c))
      = (if is_processing (fst ?c) then 1 else 0)"
    using inv by (simp add: flag_inv_def)
  show "in_flight (snd ?c) \<le> 1"
    using in_flight_inside [of "snd ?c"] cnt by (simp split: if_splits)
  show "is_processing (fst ?c) \<longleftrightarrow> (\<exists>x \<in> set (snd ?c). inside (snd x))"
  proof
    assume "is_processing (fst ?c)"
    with cnt have "filter (\<lambda>x. inside (snd x)) (snd ?c) \<noteq> []" by auto
    then show "\<exists>x \<in> set (snd ?c). inside (snd x)"
      by (simp add: filter_empty_conv)
  next
    assume "\<exists>x \<in> set (snd ?c). inside (snd x)"
    then have "filter (\<lambda>x. inside (snd x)) (snd ?c) \<noteq> []"
      by (simp add: filter_empty_conv)
    with cnt show "is_processing (fst ?c)" by (auto split: if_splits)
  qed
qed

subsection \<open>Two calls that overlap at the entry\<close>













section \<open>The enqueuer\<close>

lemma split_on_nonempty: "split_on d s \<noteq> []"
  by (induction s) (simp_all split: list.split)

lemma split_on_append: "split_on d (x @ d # y) = split_on d x @ split_on d y"
proof (induction x)
  case Nil
  then show ?case by simp
next
  case (Cons c cs)
  obtain w ws where w: "split_on d cs = w # ws"
    using split_on_nonempty [of d cs] by (cases "split_on d cs") simp_all
  with Cons show ?case by simp
qed

lemma replace_short: "length s < 3 \<Longrightarrow> replace_fullwidth_comma s = s"
  by (cases s rule: replace_fullwidth_comma.cases) simp_all

lemma replace_comma_head:
  "replace_fullwidth_comma (CHR '','' # b) = CHR '','' # replace_fullwidth_comma b"
proof (cases "length b < 2")
  case True
  then have "length (CHR '','' # b) < 3" and "length b < 3" by simp_all
  then show ?thesis by (simp only: replace_short)
next
  case False
  then obtain x y cs where b: "b = x # y # cs"
    by (cases b; cases "tl b") auto
  show ?thesis by (simp add: b fullwidth_comma_def)
qed

lemma replace_fullwidth_head:
  "replace_fullwidth_comma (fullwidth_comma @ b) = CHR '','' # replace_fullwidth_comma b"
  by (simp add: fullwidth_comma_def)

lemma replace_one_comma:
  "replace_fullwidth_comma (x # CHR '','' # b) = x # CHR '','' # replace_fullwidth_comma b"
proof -
  have "replace_fullwidth_comma (x # CHR '','' # b) = x # replace_fullwidth_comma (CHR '','' # b)"
    by (cases b) (simp_all add: fullwidth_comma_def)
  then show ?thesis by (simp add: replace_comma_head)
qed

lemma replace_two_comma:
  "replace_fullwidth_comma (x # y # CHR '','' # b)
     = x # y # CHR '','' # replace_fullwidth_comma b"
proof -
  have "replace_fullwidth_comma (x # y # CHR '','' # b)
      = x # replace_fullwidth_comma (y # CHR '','' # b)"
    by (simp add: fullwidth_comma_def)
  then show ?thesis by (simp add: replace_one_comma)
qed

lemma replace_append_comma:
  "replace_fullwidth_comma (a @ CHR '','' # b)
     = replace_fullwidth_comma a @ CHR '','' # replace_fullwidth_comma b"
  by (induction a rule: replace_fullwidth_comma.induct)
     (simp_all add: replace_comma_head replace_one_comma replace_two_comma fullwidth_comma_def)

lemma replace_append_fullwidth:
  "replace_fullwidth_comma (a @ fullwidth_comma @ b)
     = replace_fullwidth_comma a @ CHR '','' # replace_fullwidth_comma b"
proof (induction a rule: replace_fullwidth_comma.induct)
  case (1 x y z cs)
  then show ?case by simp
qed (simp_all add: fullwidth_comma_def)

lemma parse_exts_comma:
  "parse_exts st (a @ CHR '','' # b) = parse_exts st a @ parse_exts st b"
  by (simp add: parse_exts_def replace_append_comma split_on_append)

lemma parse_exts_fullwidth:
  "parse_exts st (a @ fullwidth_comma @ b) = parse_exts st a @ parse_exts st b"
  by (simp add: parse_exts_def replace_append_fullwidth split_on_append)

text \<open>
  What holds of the classification whatever \<open>str.lower\<close> and \<open>str.strip\<close> are: paths
  whose lower-cased suffixes agree are classified alike; a full-width comma and an ASCII
  comma delimit entries alike; every entry is compared with a dot put before it; and the
  upload list is consulted before the copy list.
\<close>

lemma classification_facts:
  "(lw (path_suffix p) = lw (path_suffix p') \<longrightarrow>
      classify lw upload_exts copy_exts dremote dlocal p
        = classify lw upload_exts copy_exts dremote dlocal p') \<and>
   parse_exts st (a @ fullwidth_comma @ b) = parse_exts st (a @ '','' @ b) \<and>
   parse_exts st (a @ '','' @ b) = parse_exts st a @ parse_exts st b \<and>
   (\<forall>x \<in> set (parse_exts st cfg). take 1 x = ''.'') \<and>
   (lw (path_suffix p) \<in> set upload_exts \<longrightarrow>
      classify lw upload_exts copy_exts dremote dlocal p
        = (if dremote = [] then None else Some (''upload'', dremote))) \<and>
   (lw (path_suffix p) \<notin> set upload_exts \<and> lw (path_suffix p) \<in> set copy_exts \<longrightarrow>
      classify lw upload_exts copy_exts dremote dlocal p
        = (if dlocal = [] then None else Some (''copy'', dlocal))) \<and>
   (lw (path_suffix p) \<notin> set upload_exts \<and> lw (path_suffix p) \<notin> set copy_exts \<longrightarrow>
      classify lw upload_exts copy_exts dremote dlocal p = None)"
proof (intro conjI impI)
  assume "lw (path_suffix p) = lw (path_suffix p')"
  then show "classify lw upload_exts copy_exts dremote dlocal p
        = classify lw upload_exts copy_exts dremote dlocal p'"
    by (simp add: classify_def)
next
  show "parse_exts st (a @ fullwidth_comma @ b) = parse_exts st (a @ '','' @ b)"
    by (simp add: parse_exts_comma parse_exts_fullwidth)
next
  show "parse_exts st (a @ '','' @ b) = parse_exts st a @ parse_exts st b"
    by (simp add: parse_exts_comma)
next
  show "\<forall>x \<in> set (parse_exts st cfg). take 1 x = ''.''"
    by (auto simp add: parse_exts_def)
next
  assume "lw (path_suffix p) \<in> set upload_exts"
  then show "classify lw upload_exts copy_exts dremote dlocal p
        = (if dremote = [] then None else Some (''upload'', dremote))"
    by (simp add: classify_def)
next
  assume "lw (path_suffix p) \<notin> set upload_exts \<and> lw (path_suffix p) \<in> set copy_exts"
  then show "classify lw upload_exts copy_exts dremote dlocal p
        = (if dlocal = [] then None else Some (''copy'', dlocal))"
    by (simp add: classify_def)
next
  assume "lw (path_suffix p) \<notin> set upload_exts \<and> lw (path_suffix p) \<notin> set copy_exts"
  then show "classify lw upload_exts copy_exts dremote dlocal p = None"
    by (simp add: classify_def)
qed

lemma ascii_conform_self: "ascii_conform ascii_lower ascii_strip"
  by (simp add: ascii_conform_def)

lemma suffix_examples:
  "path_suffix ''/watch/movie.mkv'' = ''.mkv''"
  "path_suffix ''/watch/movie.MKV'' = ''.MKV''"
  by (simp_all add: path_suffix_def path_name_def Let_def)

lemma ascii_examples:
  "is_ascii ''.mkv''" "is_ascii ''.MKV''" "is_ascii ''MKV''" "is_ascii ''mkv''"
  "is_ascii ''srt''" "is_ascii ''mp4''" "is_ascii '' mkv''"
  "ascii_lower ''.mkv'' = ''.mkv''" "ascii_lower ''.MKV'' = ''.mkv''"
  "ascii_strip ''MKV'' = ''MKV''" "ascii_strip ''mkv'' = ''mkv''"
  "ascii_strip ''srt'' = ''srt''" "ascii_strip ''mp4'' = ''mp4''"
  "ascii_strip '' mkv'' = ''mkv''"
  by (simp_all add: is_ascii_def ascii_lower_def ascii_lower_char_def ascii_strip_def
      ascii_space_def)

lemma conform_examples:
  assumes "ascii_conform lw st"
  shows "lw ''.mkv'' = ''.mkv''" "lw ''.MKV'' = ''.mkv''"
    "st ''MKV'' = ''MKV''" "st ''mkv'' = ''mkv''" "st ''srt'' = ''srt''"
    "st ''mp4'' = ''mp4''" "st '' mkv'' = ''mkv''"
  using assms ascii_examples by (simp_all add: ascii_conform_def)

lemma parse_exts_examples:
  assumes "ascii_conform lw st"
  shows "parse_exts st ''MKV'' = [''.MKV'']" "parse_exts st ''mkv'' = [''.mkv'']"
    "parse_exts st ''srt'' = [''.srt'']" "parse_exts st ''mp4, mkv'' = [''.mp4'', ''.mkv'']"
  by (simp_all add: parse_exts_def fullwidth_comma_def conform_examples [OF assms])

text \<open>
  C7 (extensions), at a failing input. The upload list is configured as \<open>MKV\<close> and a
  remote destination is set. \<open>str.lower\<close> and \<open>str.strip\<close> are any functions that do to
  ASCII strings what Python does. The entry is compared as \<open>.MKV\<close>, the suffix of the
  file as \<open>.mkv\<close>: neither \<open>movie.mkv\<close> nor \<open>movie.MKV\<close> is classified, though each
  suffix equals the entry but for letter case. With the entry \<open>mkv\<close> the file
  \<open>movie.MKV\<close> is an upload: the comparison ignores the case of the file's suffix only.
\<close>

theorem uppercase_entry_dropped:
  assumes "ascii_conform lw st"
  shows "parse_exts st ''MKV'' = [''.MKV''] \<and>
    lw (path_suffix ''/watch/movie.mkv'') = ''.mkv'' \<and>
    lw (path_suffix ''/watch/movie.MKV'') = ''.mkv'' \<and>
    classify lw (parse_exts st ''MKV'') (parse_exts st ''srt'') ''/cloud'' ''/local''
      ''/watch/movie.mkv'' = None \<and>
    classify lw (parse_exts st ''MKV'') (parse_exts st ''srt'') ''/cloud'' ''/local''
      ''/watch/movie.MKV'' = None \<and>
    classify lw (parse_exts st ''mkv'') (parse_exts st ''srt'') ''/cloud'' ''/local''
      ''/watch/movie.MKV'' = Some (''upload'', ''/cloud'')"
  by (simp add: classify_def suffix_examples conform_examples [OF assms]
      parse_exts_examples [OF assms])

lemma ex_path_checks:
  "\<not> is_excluded ''/watch/movie.mkv''" "\<not> is_bluray ''/watch/movie.mkv''"
  "path_name ''/watch/movie.mkv'' = ''movie.mkv''"
  by (simp_all add: is_excluded_def is_bluray_def bdmv_stream_def path_name_def)

text \<open>
  The Blu-ray check on paths that hold the pattern in capitals, in mixed case with a
  backslash, and with a long s for the S; and on a path that does not hold it.
\<close>

lemma ex_bluray:
  "is_bluray ''/watch/disc/BDMV/STREAM/00001.m2ts''"
  "is_bluray (''/watch/disc/bdmv'' @ [CHR 0x5C] @ ''Stream/1.m2ts'')"
  "is_bluray (''/watch/disc/BDMV/'' @ [CHR 0xC5, CHR 0xBF] @ ''TREAM/1.m2ts'')"
  "\<not> is_bluray ''/watch/disc/BDMV-STREAM/1.m2ts''"
  by (simp_all add: is_bluray_def bdmv_stream_def)

lemma ex_enqueue_uppercase_entry:
  "enqueue_body (ex_enq_env\<lparr>directory_upload_uploadext := Some ''MKV''\<rparr>)
     ''/watch/movie.mkv'' ''/watch'' (ex_world\<lparr>queue := []\<rparr>)
     = Inr (ex_world\<lparr>queue := []\<rparr>)"
proof -
  have c: "classify ascii_lower (parse_exts ascii_strip ''MKV'') (parse_exts ascii_strip ''srt'')
      ''/cloud'' ''/local'' ''/watch/movie.mkv'' = None"
    by (simp add: classify_def suffix_examples ascii_examples
        parse_exts_examples [OF ascii_conform_self])
  show ?thesis
    by (simp add: enqueue_body_def ex_enq_env_def is_file_stable_def ex_path_checks
        c get_or_def is_uploaded_def exists_in_queue_def Let_def ex_world_def)
qed

text \<open>
  With Python's own behaviour on ASCII: the entry \<open>MKV\<close> drops \<open>movie.mkv\<close>, and the
  whole call of \<open>enqueue_file\<close> for that file returns without queueing it and without
  logging an error.
\<close>

theorem uppercase_entry_dropped_witness:
  "classify ascii_lower (parse_exts ascii_strip ''MKV'') (parse_exts ascii_strip ''srt'')
     ''/cloud'' ''/local'' ''/watch/movie.mkv'' = None \<and>
   enqueue_file (ex_enq_env\<lparr>directory_upload_uploadext := Some ''MKV''\<rparr>)
     ''/watch/movie.mkv'' ''/watch'' (ex_world\<lparr>queue := []\<rparr>)
     = Inr (ex_world\<lparr>queue := []\<rparr>)"
proof -
  have a: "classify ascii_lower (parse_exts ascii_strip ''MKV'') (parse_exts ascii_strip ''srt'')
     ''/cloud'' ''/local'' ''/watch/movie.mkv'' = None"
    using uppercase_entry_dropped [OF ascii_conform_self] by (elim conjE)
  have b: "enqueue_file (ex_enq_env\<lparr>directory_upload_uploadext := Some ''MKV''\<rparr>)
     ''/watch/movie.mkv'' ''/watch'' (ex_world\<lparr>queue := []\<rparr>)
     = Inr (ex_world\<lparr>queue := []\<rparr>)"
    by (simp add: enqueue_file_def ex_enqueue_uppercase_entry)
  from a b show ?thesis by (intro conjI)
qed

text \<open>
  C10 (the enqueuer does not raise). Whatever the path, the monitored root, the state and
  the environment, \<open>enqueue_file\<close> returns. When a step of its body raises, the exception
  is logged and the state is otherwise as before; when the body ends or returns, the state
  is the one the body left.
\<close>

theorem enqueue_file_total:
  "(\<exists>s'. enqueue_file e event_path mon_path s = Inr s') \<and>
   (\<forall>x. enqueue_body e event_path mon_path s = Inl x \<longrightarrow>
      enqueue_file e event_path mon_path s = Inr (s\<lparr>error_log := error_log s @ [x]\<rparr>)) \<and>
   (\<forall>s'. enqueue_body e event_path mon_path s = Inr s' \<longrightarrow>
      enqueue_file e event_path mon_path s = Inr s')"
  by (cases "enqueue_body e event_path mon_path s") (simp_all add: enqueue_file_def)

lemma ex_classify:
  "classify ascii_lower (parse_exts ascii_strip ''mp4, mkv'') (parse_exts ascii_strip ''srt'')
     ''/cloud'' ''/local'' ''/watch/movie.mkv'' = Some (''upload'', ''/cloud'')"
  by (simp add: classify_def suffix_examples ascii_examples
      parse_exts_examples [OF ascii_conform_self])

lemma ex_enqueue_created:
  "enqueue_body ex_enq_env ''/watch/movie.mkv'' ''/watch'' (ex_world\<lparr>queue := []\<rparr>)
     = Inr ex_world"
  by (simp add: enqueue_body_def ex_enq_env_def is_file_stable_def ex_path_checks
      ex_classify get_or_def is_uploaded_def exists_in_queue_def create_task_def
      next_task_id_def Let_def ex_world_def ex_task_def)

lemma ex_enqueue_stat_raises:
  "enqueue_body (ex_enq_env\<lparr>enq_raises := (\<lambda>p. p = Stat)\<rparr>) ''/watch/movie.mkv'' ''/watch''
     (ex_world\<lparr>queue := []\<rparr>) = Inl (EnqFault Stat)"
  by (simp add: enqueue_body_def ex_enq_env_def is_file_stable_def ex_path_checks)

lemma ex_enqueue_no_setting:
  "enqueue_body (ex_enq_env\<lparr>directory_upload_path := None\<rparr>) ''/watch/movie.mkv'' ''/watch''
     (ex_world\<lparr>queue := []\<rparr>) = Inl TypeError"
  by (simp add: enqueue_body_def ex_enq_env_def is_file_stable_def ex_path_checks
      is_uploaded_def exists_in_queue_def Let_def ex_world_def)

lemma ex_enqueue_duplicate_path:
  "enqueue_body ex_enq_env ''/watch/movie.mkv'' ''/watch''
     (ex_world\<lparr>queue := [ex_task\<lparr>status := ''completed''\<rparr>]\<rparr>) = Inl IntegrityError"
  by (simp add: enqueue_body_def ex_enq_env_def is_file_stable_def ex_path_checks
      ex_classify get_or_def is_uploaded_def exists_in_queue_def create_task_def
      Let_def ex_world_def ex_task_def)

text \<open>
  The file of the scenario is queued; a \<open>stat\<close> that raises, a missing setting and a path
  the table already holds are logged and the call returns.
\<close>

theorem enqueue_file_total_witness:
  "enqueue_file ex_enq_env ''/watch/movie.mkv'' ''/watch'' (ex_world\<lparr>queue := []\<rparr>)
     = Inr ex_world \<and>
   enqueue_file (ex_enq_env\<lparr>enq_raises := (\<lambda>p. p = Stat)\<rparr>) ''/watch/movie.mkv'' ''/watch''
     (ex_world\<lparr>queue := []\<rparr>) = Inr (ex_world\<lparr>queue := [], error_log := [EnqFault Stat]\<rparr>) \<and>
   enqueue_file (ex_enq_env\<lparr>directory_upload_path := None\<rparr>) ''/watch/movie.mkv'' ''/watch''
     (ex_world\<lparr>queue := []\<rparr>) = Inr (ex_world\<lparr>queue := [], error_log := [TypeError]\<rparr>) \<and>
   enqueue_file ex_enq_env ''/watch/movie.mkv'' ''/watch''
     (ex_world\<lparr>queue := [ex_task\<lparr>status := ''completed''\<rparr>]\<rparr>)
     = Inr (ex_world\<lparr>queue := [ex_task\<lparr>status := ''completed''\<rparr>],
                     error_log := [IntegrityError]\<rparr>)"
proof -
  have lg: "error_log ex_world = []" by (simp add: ex_world_def)
  have a: "enqueue_file ex_enq_env ''/watch/movie.mkv'' ''/watch'' (ex_world\<lparr>queue := []\<rparr>)
     = Inr ex_world"
    using enqueue_file_total [of ex_enq_env "''/watch/movie.mkv''" "''/watch''"
        "ex_world\<lparr>queue := []\<rparr>", THEN conjunct2, THEN conjunct2, THEN spec, of ex_world]
      ex_enqueue_created by (elim impE) assumption+
  have b: "enqueue_file (ex_enq_env\<lparr>enq_raises := (\<lambda>p. p = Stat)\<rparr>) ''/watch/movie.mkv''
      ''/watch'' (ex_world\<lparr>queue := []\<rparr>)
      = Inr (ex_world\<lparr>queue := [], error_log := [EnqFault Stat]\<rparr>)"
    using enqueue_file_total [of "ex_enq_env\<lparr>enq_raises := (\<lambda>p. p = Stat)\<rparr>"
        "''/watch/movie.mkv''" "''/watch''" "ex_world\<lparr>queue := []\<rparr>",
        THEN conjunct2, THEN conjunct1, THEN spec, of "EnqFault Stat"]
      ex_enqueue_stat_raises by (simp add: lg)
  have c: "enqueue_file (ex_enq_env\<lparr>directory_upload_path := None\<rparr>) ''/watch/movie.mkv''
      ''/watch'' (ex_world\<lparr>queue := []\<rparr>)
      = Inr (ex_world\<lparr>queue := [], error_log := [TypeError]\<rparr>)"
    using enqueue_file_total [of "ex_enq_env\<lparr>directory_upload_path := None\<rparr>"
        "''/watch/movie.mkv''" "''/watch''" "ex_world\<lparr>queue := []\<rparr>",
        THEN conjunct2, THEN conjunct1, THEN spec, of TypeError]
      ex_enqueue_no_setting by (simp add: lg)
  have d: "enqueue_file ex_enq_env ''/watch/movie.mkv'' ''/watch''
     (ex_world\<lparr>queue := [ex_task\<lparr>status := ''completed''\<rparr>]\<rparr>)
     = Inr (ex_world\<lparr>queue := [ex_task\<lparr>status := ''completed''\<rparr>],
                     error_log := [IntegrityError]\<rparr>)"
    using enqueue_file_total [of ex_enq_env "''/watch/movie.mkv''" "''/watch''"
        "ex_world\<lparr>queue := [ex_task\<lparr>status := ''completed''\<rparr>]\<rparr>",
        THEN conjunct2, THEN conjunct1, THEN spec, of IntegrityError]
      ex_enqueue_duplicate_path by (simp add: lg)
  from a b c d show ?thesis by (intro conjI)
qed
end
